theory Spec2Isabelle
  imports Main
begin

section \<open>Python string primitives used by the services\<close>

text \<open>
  A Python \<open>str\<close> is modelled as a \<open>string\<close>: a list of characters with code points
  below 256. On that range the classifications below are those of CPython:
  \<open>str.strip()\<close> removes the characters for which \<open>str.isspace()\<close> holds, and the only
  decimal digits are \<open>0\<close> to \<open>9\<close>. Python integers are unbounded and modelled as \<open>int\<close>;
  the interpreter's configurable limit on the number of digits of an integer conversion
  is not part of the model.
\<close>

definition isspace :: "char \<Rightarrow> bool" where
  "isspace c = (c \<in> set [CHR 0x09, CHR 0x0A, CHR 0x0B, CHR 0x0C, CHR 0x0D,
                          CHR 0x1C, CHR 0x1D, CHR 0x1E, CHR 0x1F, CHR 0x20,
                          CHR 0x85, CHR 0xA0])"

definition lstrip :: "string \<Rightarrow> string" where
  "lstrip s = dropWhile isspace s"

definition rstrip :: "string \<Rightarrow> string" where
  "rstrip s = rev (dropWhile isspace (rev s))"

definition strip :: "string \<Rightarrow> string" where
  "strip s = lstrip (rstrip s)"

definition startswith :: "string \<Rightarrow> string \<Rightarrow> bool" where
  "startswith s p = (take (length p) s = p)"

text \<open>\<open>s.split(sep)\<close> for a one-character separator: every occurrence splits, and
  the empty string gives one empty field.\<close>

fun split :: "char \<Rightarrow> string \<Rightarrow> string list" where
  "split sep [] = [[]]"
| "split sep (c # cs) =
     (if c = sep then [] # split sep cs
      else (case split sep cs of
              [] \<Rightarrow> [[c]]
            | w # ws \<Rightarrow> (c # w) # ws))"

text \<open>\<open>s.split(sep, 1)\<close>: at most one split, at the first occurrence.\<close>

definition split1 :: "char \<Rightarrow> string \<Rightarrow> string list" where
  "split1 sep s =
     (if sep \<in> set s
      then [takeWhile (\<lambda>c. c \<noteq> sep) s, tl (dropWhile (\<lambda>c. c \<noteq> sep) s)]
      else [s])"

text \<open>\<open>sep.join(parts)\<close>.\<close>

fun join :: "string \<Rightarrow> string list \<Rightarrow> string" where
  "join sep [] = []"
| "join sep [p] = p"
| "join sep (p # q # ps) = p @ sep @ join sep (q # ps)"

text \<open>\<open>s.replace(old, new)\<close>: the occurrences of \<open>old\<close> are replaced from left to
  right without overlap; an empty \<open>old\<close> matches before every character and at the
  end.\<close>

function replace_nonempty :: "string \<Rightarrow> string \<Rightarrow> string \<Rightarrow> string" where
  "replace_nonempty [] old new = []"
| "replace_nonempty (c # cs) old new =
     (if startswith (c # cs) old
      then new @ replace_nonempty (drop (length old - 1) cs) old new
      else c # replace_nonempty cs old new)"
  by pat_completeness auto
termination
  by (relation "measure (\<lambda>(s, old, new). length s)") auto

definition replace :: "string \<Rightarrow> string \<Rightarrow> string \<Rightarrow> string" where
  "replace s old new =
     (if old = [] then new @ concat (map (\<lambda>c. c # new) s)
      else replace_nonempty s old new)"

subsection \<open>Integers and their decimal text\<close>

definition isdigit :: "char \<Rightarrow> bool" where
  "isdigit c = (c \<in> set ''0123456789'')"

definition digit_value :: "char \<Rightarrow> int" where
  "digit_value c = int (of_char c) - 48"

text \<open>The digits of \<open>int()\<close>'s argument after the sign: a digit, then digits each
  optionally preceded by one underscore.\<close>

fun digits_acc :: "int \<Rightarrow> string \<Rightarrow> int option" where
  "digits_acc acc [] = Some acc"
| "digits_acc acc [c] = (if isdigit c then Some (acc * 10 + digit_value c) else None)"
| "digits_acc acc (c # c' # cs) =
     (if isdigit c then digits_acc (acc * 10 + digit_value c) (c' # cs)
      else if c = CHR ''_'' \<and> isdigit c' then digits_acc acc (c' # cs)
      else None)"

definition digits_val :: "string \<Rightarrow> int option" where
  "digits_val s =
     (case s of
        [] \<Rightarrow> None
      | c # cs \<Rightarrow> if isdigit c then digits_acc (digit_value c) cs else None)"

text \<open>\<open>int(s)\<close> for a string: \<open>None\<close> is the \<open>ValueError\<close>. The whitespace that \<open>int\<close>
  passes over at both ends is that of \<open>str.strip()\<close> without the four separator
  controls \<open>0x1C\<close> to \<open>0x1F\<close>.\<close>

definition int_space :: "char \<Rightarrow> bool" where
  "int_space c = (c \<in> set [CHR 0x09, CHR 0x0A, CHR 0x0B, CHR 0x0C, CHR 0x0D, CHR 0x20,
                            CHR 0x85, CHR 0xA0])"

definition int_strip :: "string \<Rightarrow> string" where
  "int_strip s = dropWhile int_space (rev (dropWhile int_space (rev s)))"

definition py_int :: "string \<Rightarrow> int option" where
  "py_int s =
     (case int_strip s of
        [] \<Rightarrow> None
      | c # cs \<Rightarrow>
          if c = CHR ''-'' then map_option uminus (digits_val cs)
          else if c = CHR ''+'' then digits_val cs
          else digits_val (c # cs))"

text \<open>\<open>str(n)\<close> for an integer.\<close>

definition digit_char :: "nat \<Rightarrow> char" where
  "digit_char d = ''0123456789'' ! d"

fun digits_of :: "nat \<Rightarrow> string" where
  "digits_of n = (if n < 10 then [digit_char n] else digits_of (n div 10) @ [digit_char (n mod 10)])"

declare digits_of.simps [simp del]

definition py_str :: "int \<Rightarrow> string" where
  "py_str n = (if n < 0 then CHR ''-'' # digits_of (nat (- n)) else digits_of (nat n))"


section \<open>The data model (\<open>models.py\<close>)\<close>

record FrameDescription =
  description :: string
  frame_number :: int

section \<open>The text-completion service (\<open>llm_service.py\<close>)\<close>

subsection \<open>Messages and the HTTP reply\<close>

record message =
  role :: string
  content :: string

text \<open>What \<open>response.json()\<close> can return. A float takes the same branches as an
  integer everywhere below, so numbers are integers here. An object is the list of the
  entries of the dictionary, each key once.\<close>

datatype json_value =
    JNull
  | JBool bool
  | JNumber int
  | JString string
  | JArray "json_value list"
  | JObject "(string \<times> json_value) list"

text \<open>The reply of \<open>requests.post\<close>: \<open>body_text\<close> is \<open>response.text\<close>, and \<open>json\<close> is
  the value of \<open>response.json()\<close>, \<open>None\<close> when the body is not JSON and the call
  raises.\<close>

record http_response =
  status_code :: int
  body_text :: string
  json :: "json_value option"

datatype error =
    ValueError string
  | JSONDecodeError
  | AttributeError
  | TypeError
  | KeyError
  | IndexError
  | ConnectionError
  | OSError

fun format_loop :: "message list \<Rightarrow> string \<Rightarrow> string" where
  "format_loop [] formatted_prompt = formatted_prompt"
| "format_loop (m # ms) formatted_prompt =
     format_loop ms
       (if role m = ''system''
        then formatted_prompt @ ''<s>[INST] '' @ content m @ '' [/INST]\<newline>\<newline>''
        else if role m = ''user''
        then (if formatted_prompt \<noteq> []
              then formatted_prompt @ content m @ '' [/INST]\<newline>\<newline>''
              else formatted_prompt @ ''<s>[INST] '' @ content m @ '' [/INST]\<newline>\<newline>'')
        else if role m = ''assistant''
        then formatted_prompt @ content m @ ''\<newline>\<newline>''
        else formatted_prompt)"

definition format_messages :: "message list \<Rightarrow> string" where
  "format_messages messages = strip (format_loop messages [])"

text \<open>\<open>x.get("generated_text", "").replace(prompt, "").strip()\<close>: only a dictionary has
  \<open>get\<close>, and only a string has \<open>replace\<close>.\<close>

definition generated_text :: "json_value \<Rightarrow> string \<Rightarrow> error + string" where
  "generated_text x prompt =
     (case x of
        JObject kvs \<Rightarrow>
          (case map_of kvs ''generated_text'' of
             None \<Rightarrow> Inr (strip (replace [] prompt []))
           | Some (JString s) \<Rightarrow> Inr (strip (replace s prompt []))
           | Some _ \<Rightarrow> Inl AttributeError)
      | _ \<Rightarrow> Inl AttributeError)"

definition call_llm :: "message list \<Rightarrow> http_response \<Rightarrow> error + string" where
  "call_llm messages response =
     (let prompt = format_messages messages in
      if status_code response \<noteq> 200
      then Inl (ValueError (''Error from Hugging Face API: '' @ body_text response))
      else (case json response of
              None \<Rightarrow> Inl JSONDecodeError
            | Some (JArray (x # xs)) \<Rightarrow> generated_text x prompt
            | Some (JObject kvs) \<Rightarrow> generated_text (JObject kvs) prompt
            | Some _ \<Rightarrow> Inr ''Error: Unexpected response format''))"

subsection \<open>\<open>generate_frame_sequence\<close> and \<open>generate_structured_frame_sequence\<close>\<close>

definition generate_system_message :: "int \<Rightarrow> string" where
  "generate_system_message num_frames =
     ''You are a creative assistant that converts text prompts into a sequence ''
     @ ''of '' @ py_str num_frames @ '' detailed frame descriptions for a video storyboard. ''
     @ ''Each frame should progress the story logically, with clear visual elements. ''
     @ ''Focus on showing progression and change across the sequence.''"

definition structured_system_message :: "int \<Rightarrow> string" where
  "structured_system_message num_frames =
     ''You are a creative assistant that converts text prompts into a sequence ''
     @ ''of '' @ py_str num_frames @ '' detailed frame descriptions for a video storyboard. ''
     @ ''Each frame should progress the story logically, with clear visual elements. ''
     @ ''\<newline>\<newline>You MUST format your response exactly as follows, with one frame per line:\<newline>''
     @ ''Frame 1: [description of first frame]\<newline>''
     @ ''Frame 2: [description of second frame]\<newline>''
     @ ''And so on...''"

definition generate_user_message :: "string \<Rightarrow> int \<Rightarrow> string" where
  "generate_user_message prompt num_frames =
     ''Convert this text into '' @ py_str num_frames @ '' sequential video frames: ''
     @ [CHR 0x22] @ prompt @ [CHR 0x22]"

text \<open>The first-pass loop over the lines, with its two loop variables.\<close>

fun parse_loop :: "string list \<Rightarrow> int \<Rightarrow> FrameDescription list \<Rightarrow> FrameDescription list" where
  "parse_loop [] frame_num frames = frames"
| "parse_loop (raw # lines) frame_num frames =
     (let line = strip raw in
      if line \<noteq> [] \<and> (startswith line ''Frame''
                       \<or> startswith line (py_str frame_num @ ''.'')
                       \<or> startswith line (py_str frame_num @ '':''))
      then
        (let description =
               (if CHR '':'' \<in> set line then strip (last (split1 CHR '':'' line))
                else strip (last (split1 CHR ''.'' line)))
         in parse_loop lines (frame_num + 1)
              (frames @ [\<lparr>description = description, frame_number = frame_num\<rparr>]))
      else parse_loop lines frame_num frames)"

text \<open>The structured loop over \<open>enumerate(lines)\<close>.\<close>

fun structured_loop ::
  "(nat \<times> string) list \<Rightarrow> int \<Rightarrow> FrameDescription list \<Rightarrow> FrameDescription list" where
  "structured_loop [] num_frames frames = frames"
| "structured_loop ((i, raw) # rest) num_frames frames =
     (let line = strip raw in
      if line \<noteq> [] \<and> int i < num_frames
      then
        (let description =
               (if CHR '':'' \<in> set line then strip (last (split1 CHR '':'' line)) else line)
         in structured_loop rest num_frames
              (frames @ [\<lparr>description = description, frame_number = int i + 1\<rparr>]))
      else structured_loop rest num_frames frames)"

text \<open>The padding \<open>while\<close> loop.\<close>

function pad_frames :: "FrameDescription list \<Rightarrow> int \<Rightarrow> string \<Rightarrow> FrameDescription list" where
  "pad_frames frames num_frames prompt =
     (if int (length frames) < num_frames
      then pad_frames
             (frames @ [\<lparr>description = ''Continuation of the scene from '' @ prompt,
                         frame_number = int (length frames) + 1\<rparr>])
             num_frames prompt
      else frames)"
  by pat_completeness auto
termination
  by (relation "measure (\<lambda>(frames, num_frames, prompt). nat (num_frames - int (length frames)))")
     auto

declare pad_frames.simps [simp del]

text \<open>The part of \<open>generate_structured_frame_sequence\<close> after the completion call.\<close>

definition structured_from_response :: "string \<Rightarrow> int \<Rightarrow> string \<Rightarrow> FrameDescription list" where
  "structured_from_response prompt num_frames response =
     (let lines = split CHR ''\<newline>'' (strip response);
          frames = structured_loop (enumerate 0 lines) num_frames []
      in pad_frames frames num_frames prompt)"

definition generate_structured_frame_sequence ::
  "string \<Rightarrow> int \<Rightarrow> http_response \<Rightarrow> error + FrameDescription list" where
  "generate_structured_frame_sequence prompt num_frames http =
     (let messages = [\<lparr>role = ''system'', content = structured_system_message num_frames\<rparr>,
                      \<lparr>role = ''user'', content = generate_user_message prompt num_frames\<rparr>]
      in case call_llm messages http of
           Inl e \<Rightarrow> Inl e
         | Inr response \<Rightarrow> Inr (structured_from_response prompt num_frames response))"

text \<open>The first pass of \<open>generate_frame_sequence\<close> over the text of the reply. Its
  string operations cannot raise, so the \<open>except\<close> branch is not reached.\<close>

definition first_pass :: "string \<Rightarrow> FrameDescription list" where
  "first_pass response =
     (let lines = split CHR ''\<newline>'' (strip response)
      in parse_loop lines 1 [])"

text \<open>\<open>generate_frame_sequence\<close> makes one completion call and, when the first pass
  accepts fewer than \<open>num_frames\<close> lines, a second one: \<open>http1\<close> and \<open>http2\<close> are the
  replies to them.\<close>

definition generate_frame_sequence ::
  "string \<Rightarrow> int \<Rightarrow> http_response \<Rightarrow> http_response \<Rightarrow> error + FrameDescription list" where
  "generate_frame_sequence prompt num_frames http1 http2 =
     (let messages = [\<lparr>role = ''system'', content = generate_system_message num_frames\<rparr>,
                      \<lparr>role = ''user'', content = generate_user_message prompt num_frames\<rparr>]
      in case call_llm messages http1 of
           Inl e \<Rightarrow> Inl e
         | Inr response \<Rightarrow>
             (let frames = first_pass response
              in if int (length frames) < num_frames
                 then generate_structured_frame_sequence prompt num_frames http2
                 else Inr frames))"

subsection \<open>\<open>refine_frame_sequence\<close>\<close>

text \<open>The line \<open>f"Frame {f.frame_number}: {f.description}"\<close> of a frame.\<close>

definition frame_line :: "FrameDescription \<Rightarrow> string" where
  "frame_line f = ''Frame '' @ py_str (frame_number f) @ '': '' @ description f"

definition frames_text :: "FrameDescription list \<Rightarrow> string" where
  "frames_text frames = join ''\<newline>'' (map frame_line frames)"

definition refine_system_message :: string where
  "refine_system_message =
     ''You are a detail-oriented editor that refines video frame descriptions to ensure ''
     @ ''they maintain linguistic consistency, semantic coherence, and logical progression. ''
     @ ''Ensure each frame builds on the previous ones, uses consistent terminology, ''
     @ ''and creates a smooth visual narrative.''
     @ ''\<newline>\<newline>You MUST format your response exactly as follows, with one frame per line:\<newline>''
     @ ''Frame 1: [refined description of first frame]\<newline>''
     @ ''Frame 2: [refined description of second frame]\<newline>''
     @ ''And so on...''"

definition refine_user_message :: "FrameDescription list \<Rightarrow> string \<Rightarrow> string" where
  "refine_user_message frames prompt =
     ''Refine these frame descriptions for the prompt: '' @ [CHR 0x22] @ prompt @ [CHR 0x22]
     @ ''\<newline>\<newline>'' @ frames_text frames @ ''\<newline>\<newline>''
     @ ''Make sure the sequence flows naturally, maintains consistent terminology, ''
     @ ''and shows clear progression while preserving the original meaning of each frame.''"

text \<open>One line of the reply: \<open>Some\<close> the frame it contributes, \<open>None\<close> when the line is
  passed over (the \<open>ValueError\<close> of \<open>int\<close> is caught and the loop continues).\<close>

definition parse_refined_line :: "string \<Rightarrow> FrameDescription option" where
  "parse_refined_line raw =
     (let line = strip raw in
      if line \<noteq> [] \<and> startswith line ''Frame''
      then
        (let parts = split1 CHR '':'' line in
         if length parts = 2
         then (case py_int (strip (replace (parts ! 0) ''Frame'' [])) of
                 None \<Rightarrow> None
               | Some frame_num \<Rightarrow>
                   Some \<lparr>description = strip (parts ! 1), frame_number = frame_num\<rparr>)
         else None)
      else None)"

fun refined_loop :: "string list \<Rightarrow> FrameDescription list \<Rightarrow> FrameDescription list" where
  "refined_loop [] refined_frames = refined_frames"
| "refined_loop (raw # lines) refined_frames =
     (case parse_refined_line raw of
        None \<Rightarrow> refined_loop lines refined_frames
      | Some f \<Rightarrow> refined_loop lines (refined_frames @ [f]))"

text \<open>The dictionary comprehension: later entries overwrite earlier ones.\<close>

fun refined_map_of :: "FrameDescription list \<Rightarrow> (int \<rightharpoonup> string) \<Rightarrow> (int \<rightharpoonup> string)" where
  "refined_map_of [] m = m"
| "refined_map_of (f # fs) m = refined_map_of fs (m(frame_number f \<mapsto> description f))"

fun reconcile_loop ::
  "FrameDescription list \<Rightarrow> (int \<rightharpoonup> string) \<Rightarrow> FrameDescription list \<Rightarrow> FrameDescription list" where
  "reconcile_loop [] refined_map result = result"
| "reconcile_loop (original # rest) refined_map result =
     (case refined_map (frame_number original) of
        Some d \<Rightarrow>
          reconcile_loop rest refined_map
            (result @ [\<lparr>description = d, frame_number = frame_number original\<rparr>])
      | None \<Rightarrow> reconcile_loop rest refined_map (result @ [original]))"

text \<open>The part of \<open>refine_frame_sequence\<close> after the completion call.\<close>

definition refine_from_response :: "FrameDescription list \<Rightarrow> string \<Rightarrow> FrameDescription list" where
  "refine_from_response frames response =
     (let lines = split CHR ''\<newline>'' (strip response);
          refined_frames = refined_loop lines []
      in if length refined_frames \<noteq> length frames
         then reconcile_loop frames (refined_map_of refined_frames Map.empty) []
         else refined_frames)"

definition refine_messages :: "FrameDescription list \<Rightarrow> string \<Rightarrow> message list" where
  "refine_messages frames prompt =
     [\<lparr>role = ''system'', content = refine_system_message\<rparr>,
      \<lparr>role = ''user'', content = refine_user_message frames prompt\<rparr>]"

text \<open>\<open>http\<close> is the reply to the one completion call that \<open>refine_frame_sequence\<close>
  makes.\<close>

definition refine_frame_sequence ::
  "FrameDescription list \<Rightarrow> string \<Rightarrow> http_response \<Rightarrow> error + FrameDescription list" where
  "refine_frame_sequence frames prompt http =
     (let messages = refine_messages frames prompt
      in case call_llm messages http of
           Inl e \<Rightarrow> Inl e
         | Inr response \<Rightarrow> Inr (refine_from_response frames response))"

section \<open>The image service (\<open>image_service.py\<close>)\<close>

text \<open>
  An image is a value of a type \<open>'img\<close>. What lies outside the repository is a
  parameter: \<open>decode\<close> is \<open>base64.b64decode\<close> followed by \<open>Image.open\<close>, which raises on
  a value that is not the base64 text of an image; the outcome of \<open>requests.post\<close> is a
  reply or the exception it raises. The request sent (prompts, weights, sizes) does not
  enter the result and is left out.
\<close>

text \<open>The truth value of \<open>self.api_key\<close>: \<open>None\<close> and the empty string are false.\<close>

definition key_set :: "string option \<Rightarrow> bool" where
  "key_set api_key = (case api_key of None \<Rightarrow> False | Some k \<Rightarrow> k \<noteq> [])"

text \<open>\<open>sub in s\<close> for two strings.\<close>

definition contains :: "string \<Rightarrow> string \<Rightarrow> bool" where
  "contains s sub = list_ex (\<lambda>i. startswith (drop i s) sub) [0..<Suc (length s)]"

text \<open>\<open>"artifacts" in data\<close>.\<close>

fun artifacts_in :: "json_value \<Rightarrow> error + bool" where
  "artifacts_in (JObject kvs) = Inr (map_of kvs ''artifacts'' \<noteq> None)"
| "artifacts_in (JArray xs) = Inr (JString ''artifacts'' \<in> set xs)"
| "artifacts_in (JString s) = Inr (contains s ''artifacts'')"
| "artifacts_in _ = Inl TypeError"

text \<open>\<open>data[key]\<close> for a string key.\<close>

fun get_item :: "json_value \<Rightarrow> string \<Rightarrow> error + json_value" where
  "get_item (JObject kvs) key =
     (case map_of kvs key of None \<Rightarrow> Inl KeyError | Some v \<Rightarrow> Inr v)"
| "get_item _ key = Inl TypeError"

text \<open>\<open>len(v)\<close>.\<close>

fun py_len :: "json_value \<Rightarrow> error + nat" where
  "py_len (JArray xs) = Inr (length xs)"
| "py_len (JString s) = Inr (length s)"
| "py_len (JObject kvs) = Inr (length kvs)"
| "py_len _ = Inl TypeError"

text \<open>\<open>v[0]\<close>: the keys of a JSON object are strings, so \<open>0\<close> is never one of them.\<close>

fun first_item :: "json_value \<Rightarrow> error + json_value" where
  "first_item (JArray xs) = (case xs of [] \<Rightarrow> Inl IndexError | x # _ \<Rightarrow> Inr x)"
| "first_item (JString s) = (case s of [] \<Rightarrow> Inl IndexError | c # _ \<Rightarrow> Inr (JString [c]))"
| "first_item (JObject kvs) = Inl KeyError"
| "first_item _ = Inl TypeError"

definition bind :: "error + 'a \<Rightarrow> ('a \<Rightarrow> error + 'b) \<Rightarrow> error + 'b" where
  "bind r f = (case r of Inl e \<Rightarrow> Inl e | Inr x \<Rightarrow> f x)"

text \<open>The body of the \<open>try\<close> of \<open>generate_image\<close>: \<open>Inl\<close> is an exception raised in it.\<close>

definition request_image ::
  "(json_value \<Rightarrow> error + 'img) \<Rightarrow> error + http_response \<Rightarrow> error + 'img option" where
  "request_image decode outcome =
     bind outcome (\<lambda>response.
       if status_code response \<noteq> 200 then Inr None
       else
         (case json response of
            None \<Rightarrow> Inl JSONDecodeError
          | Some data \<Rightarrow>
              bind (artifacts_in data) (\<lambda>present.
                if \<not> present then Inr None
                else
                  bind (get_item data ''artifacts'') (\<lambda>artifacts.
                  bind (py_len artifacts) (\<lambda>n.
                    if n > 0
                    then
                      bind (first_item artifacts) (\<lambda>artifact.
                      bind (get_item artifact ''base64'') (\<lambda>b.
                      bind (decode b) (\<lambda>img. Inr (Some img))))
                    else Inr None)))))"

definition generate_image ::
  "string option \<Rightarrow> (json_value \<Rightarrow> error + 'img) \<Rightarrow> error + http_response \<Rightarrow> 'img option" where
  "generate_image api_key decode outcome =
     (if \<not> key_set api_key then None
      else (case request_image decode outcome of
              Inl e \<Rightarrow> None
            | Inr img \<Rightarrow> img))"

text \<open>\<open>str.isalnum()\<close> on one character.\<close>

definition isalnum :: "char \<Rightarrow> bool" where
  "isalnum c =
     (let n = (of_char c :: nat) in
      (48 \<le> n \<and> n \<le> 57) \<or> (65 \<le> n \<and> n \<le> 90) \<or> (97 \<le> n \<and> n \<le> 122)
      \<or> n = 170 \<or> n = 178 \<or> n = 179 \<or> n = 181 \<or> n = 185 \<or> n = 186
      \<or> (188 \<le> n \<and> n \<le> 190) \<or> (192 \<le> n \<and> n \<le> 214) \<or> (216 \<le> n \<and> n \<le> 246)
      \<or> 248 \<le> n)"

text \<open>\<open>os.path.join(a, b)\<close> on POSIX.\<close>

definition path_join :: "string \<Rightarrow> string \<Rightarrow> string" where
  "path_join a b =
     (if startswith b ''/'' then b
      else if a = [] \<or> last a = CHR ''/'' then a @ b
      else a @ ''/'' @ b)"

text \<open>What the world does while one frame is processed: the outcome of the request,
  the time stamp that \<open>datetime.now().strftime\<close> gives when the image is saved, and the
  exception of \<open>image.save\<close>, if it raises one.\<close>

record frame_env =
  outcome :: "error + http_response"
  timestamp :: string
  write_error :: "error option"

text \<open>\<open>save_image\<close>. An image object is true, so the guard \<open>if not image\<close> is passed.\<close>

definition save_image :: "string \<Rightarrow> frame_env \<Rightarrow> 'img \<Rightarrow> string \<Rightarrow> error + string option" where
  "save_image output_dir env img filename =
     (let clean_filename =
            map (\<lambda>c. if isalnum c \<or> c \<in> set [CHR '' '', CHR ''-'', CHR ''_''] then c
                      else CHR ''_'') filename;
          full_filename = timestamp env @ ''_'' @ clean_filename @ ''.png'';
          file_path = path_join output_dir full_filename
      in case write_error env of
           Some e \<Rightarrow> Inl e
         | None \<Rightarrow> Inr (Some file_path))"

text \<open>\<open>f"frame_{frame.frame_number:02d}_{frame.description[:30].replace(' ', '_')}"\<close>.\<close>

definition format_02d :: "int \<Rightarrow> string" where
  "format_02d n = (if 0 \<le> n \<and> n < 10 then CHR ''0'' # py_str n else py_str n)"

definition frame_filename :: "FrameDescription \<Rightarrow> string" where
  "frame_filename frame =
     ''frame_'' @ format_02d (frame_number frame) @ ''_''
     @ replace (take 30 (description frame)) '' '' ''_''"

text \<open>The loop of \<open>generate_frame_images\<close> over \<open>enumerate(frames)\<close>: \<open>i\<close> is the index of
  the next frame and \<open>env i\<close> what happens while it is processed. The pause between two
  frames is not modelled.\<close>

fun frame_images_loop ::
  "string option \<Rightarrow> (json_value \<Rightarrow> error + 'img) \<Rightarrow> string \<Rightarrow> (nat \<Rightarrow> frame_env)
   \<Rightarrow> nat \<Rightarrow> FrameDescription list \<Rightarrow> string list \<Rightarrow> error + string list" where
  "frame_images_loop api_key decode output_dir env i [] image_paths = Inr image_paths"
| "frame_images_loop api_key decode output_dir env i (frame # rest) image_paths =
     (case generate_image api_key decode (outcome (env i)) of
        None \<Rightarrow> frame_images_loop api_key decode output_dir env (Suc i) rest image_paths
      | Some img \<Rightarrow>
          (case save_image output_dir (env i) img (frame_filename frame) of
             Inl e \<Rightarrow> Inl e
           | Inr None \<Rightarrow> frame_images_loop api_key decode output_dir env (Suc i) rest image_paths
           | Inr (Some image_path) \<Rightarrow>
               if image_path \<noteq> []
               then frame_images_loop api_key decode output_dir env (Suc i) rest
                      (image_paths @ [image_path])
               else frame_images_loop api_key decode output_dir env (Suc i) rest image_paths))"

definition generate_frame_images ::
  "string option \<Rightarrow> (json_value \<Rightarrow> error + 'img) \<Rightarrow> string \<Rightarrow> (nat \<Rightarrow> frame_env)
   \<Rightarrow> FrameDescription list \<Rightarrow> error + string list" where
  "generate_frame_images api_key decode output_dir env frames =
     frame_images_loop api_key decode output_dir env 0 frames []"

section \<open>\<open>refine_frame_sequence\<close> over a store of objects\<close>

text \<open>
  To state what \<open>refine_frame_sequence\<close> does to the objects it is given, the same code
  is modelled once more over a store. The store is the list of the objects allocated so
  far, and the address of an object is its position in it; a new object goes to the end.
  The objects are the \<open>FrameDescription\<close>s and the lists of addresses of them. Strings,
  integers and the dictionary \<open>refined_map\<close> hold no reference to a frame and stay values.
  The code writes to objects in one way only, \<open>list.append\<close>; it assigns no attribute of a
  frame.
\<close>

datatype obj = is_Frame: Frame FrameDescription | is_PyList: PyList "nat list"

type_synonym heap = "obj list"

text \<open>Constructing an object.\<close>

definition alloc :: "obj \<Rightarrow> heap \<Rightarrow> nat \<times> heap" where
  "alloc x h = (length h, h @ [x])"

text \<open>Reading a list and reading a frame. The code reads only addresses it was given or
  has allocated; the properties below are stated for stores in which those hold objects
  of the right kind.\<close>

definition list_at :: "heap \<Rightarrow> nat \<Rightarrow> nat list" where
  "list_at h l = (case h ! l of PyList items \<Rightarrow> items | Frame f \<Rightarrow> [])"

definition frame_at :: "heap \<Rightarrow> nat \<Rightarrow> FrameDescription" where
  "frame_at h a = (case h ! a of Frame f \<Rightarrow> f | PyList items \<Rightarrow> \<lparr>description = [], frame_number = 0\<rparr>)"

text \<open>\<open>l.append(a)\<close>.\<close>

definition list_append :: "nat \<Rightarrow> nat \<Rightarrow> heap \<Rightarrow> heap" where
  "list_append l a h = h[l := PyList (list_at h l @ [a])]"

text \<open>The parsing loop: each qualifying line constructs a frame and appends it to the list
  \<open>refined_frames\<close>.\<close>

fun refined_loop_heap :: "string list \<Rightarrow> nat \<Rightarrow> heap \<Rightarrow> heap" where
  "refined_loop_heap [] refined_frames h = h"
| "refined_loop_heap (raw # lines) refined_frames h =
     (case parse_refined_line raw of
        None \<Rightarrow> refined_loop_heap lines refined_frames h
      | Some f \<Rightarrow>
          (case alloc (Frame f) h of
             (a, h') \<Rightarrow> refined_loop_heap lines refined_frames (list_append refined_frames a h')))"

text \<open>The reconciliation loop over the frames of the input list: it appends to \<open>result\<close>
  a new frame, or the original object itself.\<close>

fun reconcile_loop_heap :: "nat list \<Rightarrow> (int \<rightharpoonup> string) \<Rightarrow> nat \<Rightarrow> heap \<Rightarrow> heap" where
  "reconcile_loop_heap [] refined_map result h = h"
| "reconcile_loop_heap (original # rest) refined_map result h =
     (case refined_map (frame_number (frame_at h original)) of
        Some d \<Rightarrow>
          (case alloc (Frame \<lparr>description = d,
                               frame_number = frame_number (frame_at h original)\<rparr>) h of
             (a, h') \<Rightarrow> reconcile_loop_heap rest refined_map result (list_append result a h'))
      | None \<Rightarrow> reconcile_loop_heap rest refined_map result (list_append result original h))"

text \<open>\<open>frames\<close> is the address of the input list. The result is the address of the list
  returned, with the store after the call.\<close>

definition refine_from_response_heap :: "nat \<Rightarrow> string \<Rightarrow> heap \<Rightarrow> nat \<times> heap" where
  "refine_from_response_heap frames response h =
     (case alloc (PyList []) h of
        (refined_frames, h1) \<Rightarrow>
          (let lines = split CHR ''\<newline>'' (strip response);
               h2 = refined_loop_heap lines refined_frames h1
           in if length (list_at h2 refined_frames) \<noteq> length (list_at h2 frames)
              then
                (let refined_map =
                       refined_map_of (map (frame_at h2) (list_at h2 refined_frames)) Map.empty
                 in case alloc (PyList []) h2 of
                      (result, h3) \<Rightarrow>
                        (result, reconcile_loop_heap (list_at h3 frames) refined_map result h3))
              else (refined_frames, h2)))"

definition refine_frame_sequence_heap ::
  "nat \<Rightarrow> string \<Rightarrow> http_response \<Rightarrow> heap \<Rightarrow> (error + nat) \<times> heap" where
  "refine_frame_sequence_heap frames prompt http h =
     (let messages = refine_messages (map (frame_at h) (list_at h frames)) prompt
      in case call_llm messages http of
           Inl e \<Rightarrow> (Inl e, h)
         | Inr response \<Rightarrow>
             (case refine_from_response_heap frames response h of
                (result, h') \<Rightarrow> (Inr result, h')))"

section \<open>Notions used to state the properties\<close>

text \<open>A successful reply of the completion service whose body is the JSON object
  \<open>{"generated_text": t}\<close>.\<close>

definition success_reply :: "string \<Rightarrow> http_response" where
  "success_reply t =
     \<lparr>status_code = 200, body_text = [], json = Some (JObject [(''generated_text'', JString t)])\<rparr>"

text \<open>The frames that \<open>refine_frame_sequence\<close> parses out of a reply text.\<close>

definition parsed_frames :: "string \<Rightarrow> FrameDescription list" where
  "parsed_frames response = refined_loop (split CHR ''\<newline>'' (strip response)) []"

text \<open>A well-formatted sequence: every description is one line of text without
  surrounding whitespace, as the descriptions that the parsers produce are.\<close>

definition well_formatted :: "FrameDescription list \<Rightarrow> bool" where
  "well_formatted frames =
     list_all (\<lambda>f. CHR ''\<newline>'' \<notin> set (description f)
                   \<and> strip (description f) = description f) frames"

text \<open>The last frame with number \<open>k\<close> in a list of parsed frames.\<close>

definition last_occurrence :: "FrameDescription list \<Rightarrow> int \<Rightarrow> FrameDescription option" where
  "last_occurrence parsed k = find (\<lambda>f. frame_number f = k) (rev parsed)"

text \<open>The spec's condition on a line of the reply, once its surrounding whitespace is
  removed: it starts with the word \<open>Frame\<close>, has a colon, and what is before the first
  colon, without the word \<open>Frame\<close>, reads as an integer.\<close>

definition qualifies :: "string \<Rightarrow> bool" where
  "qualifies line \<longleftrightarrow>
     startswith line ''Frame''
     \<and> CHR '':'' \<in> set line
     \<and> py_int (strip (replace (takeWhile (\<lambda>c. c \<noteq> CHR '':'') line) ''Frame'' [])) \<noteq> None"

text \<open>The environments of a batch from which frame \<open>k\<close> was taken out.\<close>

definition skip_env :: "nat \<Rightarrow> (nat \<Rightarrow> frame_env) \<Rightarrow> (nat \<Rightarrow> frame_env)" where
  "skip_env k env = (\<lambda>j. if j < k then env j else env (Suc j))"

text \<open>The path under which the image of a frame is saved, when one was generated.\<close>

definition frame_path ::
  "string option \<Rightarrow> (json_value \<Rightarrow> error + 'img) \<Rightarrow> string \<Rightarrow> frame_env \<Rightarrow> FrameDescription
   \<Rightarrow> string option" where
  "frame_path api_key decode output_dir e frame =
     (case generate_image api_key decode (outcome e) of
        None \<Rightarrow> None
      | Some img \<Rightarrow>
          Some (path_join output_dir
                  (timestamp e @ ''_''
                   @ map (\<lambda>c. if isalnum c \<or> c \<in> set [CHR '' '', CHR ''-'', CHR ''_''] then c
                                else CHR ''_'') (frame_filename frame)
                   @ ''.png'')))"

text \<open>An example of a decoder and of a batch whose second request is refused.\<close>

definition demo_decode :: "json_value \<Rightarrow> error + nat" where
  "demo_decode b = (case b of JString s \<Rightarrow> Inr (length s) | _ \<Rightarrow> Inl TypeError)"

definition demo_env :: "nat \<Rightarrow> frame_env" where
  "demo_env j =
     (if j = 1
      then \<lparr>outcome = Inr \<lparr>status_code = 401, body_text = ''denied'', json = None\<rparr>,
            timestamp = ''20240102_030405'', write_error = None\<rparr>
      else \<lparr>outcome = Inr \<lparr>status_code = 200, body_text = [],
                            json = Some (JObject [(''artifacts'',
                                     JArray [JObject [(''base64'', JString ''aGk='')]])])\<rparr>,
            timestamp = ''20240102_030405'', write_error = None\<rparr>)"

text \<open>What the reconciliation makes of one original frame.\<close>

definition reconciled :: "(int \<rightharpoonup> string) \<Rightarrow> FrameDescription \<Rightarrow> FrameDescription" where
  "reconciled m original =
     (case m (frame_number original) of
        Some d \<Rightarrow> \<lparr>description = d, frame_number = frame_number original\<rparr>
      | None \<Rightarrow> original)"

text \<open>The input of \<open>refine_frame_sequence\<close> in a store: the address of a list whose items
  are addresses of frames.\<close>

definition valid_input :: "heap \<Rightarrow> nat \<Rightarrow> bool" where
  "valid_input h frames =
     (frames < length h \<and> is_PyList (h ! frames)
      \<and> list_all (\<lambda>a. a < length h \<and> is_Frame (h ! a)) (list_at h frames))"

text \<open>The frames that a list in the store holds.\<close>

definition frames_at :: "heap \<Rightarrow> nat \<Rightarrow> FrameDescription list" where
  "frames_at h l = map (frame_at h) (list_at h l)"

text \<open>A value that yields a text: an object whose \<open>generated_text\<close> is absent or a
  string.\<close>

definition has_generated_text :: "json_value \<Rightarrow> bool" where
  "has_generated_text x =
     (case x of
        JObject kvs \<Rightarrow>
          (case map_of kvs ''generated_text'' of
             None \<Rightarrow> True
           | Some (JString s) \<Rightarrow> True
           | Some _ \<Rightarrow> False)
      | _ \<Rightarrow> False)"

text \<open>A body that the completion call can read without raising: it is JSON, and when it
  is an object, or a list that starts with a value, that object or value yields a text.\<close>

definition readable_body :: "json_value option \<Rightarrow> bool" where
  "readable_body body =
     (case body of
        None \<Rightarrow> False
      | Some (JArray (x # xs)) \<Rightarrow> has_generated_text x
      | Some (JObject kvs) \<Rightarrow> has_generated_text (JObject kvs)
      | Some _ \<Rightarrow> True)"

section \<open>Properties\<close>

subsection \<open>Facts about the string primitives\<close>

lemma dropWhile_snoc_keep: "\<not> P c \<Longrightarrow> dropWhile P (xs @ [c]) = dropWhile P xs @ [c]"
  by (induction xs) auto

lemma rstrip_Cons_nonspace: "\<not> isspace c \<Longrightarrow> rstrip (c # s) = c # rstrip s"
  by (simp add: rstrip_def dropWhile_snoc_keep)

lemma strip_Cons_nonspace: "\<not> isspace c \<Longrightarrow> strip (c # s) = c # rstrip s"
  by (simp add: strip_def lstrip_def rstrip_Cons_nonspace)

lemma replace_nonempty_absent:
  "c \<in> set old \<Longrightarrow> c \<notin> set s \<Longrightarrow> replace_nonempty s old new = s"
proof (induction s)
  case Nil
  then show ?case by simp
next
  case (Cons a s)
  have "\<not> startswith (a # s) old"
  proof
    assume "startswith (a # s) old"
    then have "set old \<subseteq> set (a # s)"
      unfolding startswith_def by (metis set_take_subset)
    with Cons.prems show False by auto
  qed
  with Cons show ?case by simp
qed

subsection \<open>Facts about the completion call\<close>

lemma format_messages_system_user:
  "format_messages [\<lparr>role = ''system'', content = c1\<rparr>, \<lparr>role = ''user'', content = c2\<rparr>]
   = CHR ''<'' # rstrip (''s>[INST] '' @ c1 @ '' [/INST]\<newline>\<newline>'' @ c2 @ '' [/INST]\<newline>\<newline>'')"
  by (simp add: format_messages_def strip_Cons_nonspace isspace_def)

text \<open>The prompt sent to the service starts with \<open><\<close>, so a generated text without
  that character comes back stripped and otherwise unchanged.\<close>

lemma call_llm_generated_text:
  assumes "CHR ''<'' \<notin> set t"
  shows "call_llm [\<lparr>role = ''system'', content = c1\<rparr>, \<lparr>role = ''user'', content = c2\<rparr>]
           (success_reply t) = Inr (strip t)"
  using assms
  by (simp add: call_llm_def generated_text_def replace_def format_messages_system_user
      success_reply_def replace_nonempty_absent [where c = "CHR ''<''"] del: format_loop.simps)

lemma call_llm_refine_reply:
  "CHR ''<'' \<notin> set t \<Longrightarrow> call_llm (refine_messages frames prompt) (success_reply t) = Inr (strip t)"
  by (simp add: refine_messages_def call_llm_generated_text)

subsection \<open>Facts about the reconciliation\<close>

lemma find_snoc:
  "find P (xs @ [x]) = (case find P xs of Some y \<Rightarrow> Some y | None \<Rightarrow> if P x then Some x else None)"
  by (induction xs) simp_all

lemma refined_map_of_find:
  "refined_map_of fs m k =
     (case find (\<lambda>f. frame_number f = k) (rev fs) of
        Some f \<Rightarrow> Some (description f)
      | None \<Rightarrow> m k)"
proof (induction fs arbitrary: m)
  case Nil
  show ?case by simp
next
  case (Cons f fs)
  show ?case
    by (cases "find (\<lambda>f. frame_number f = k) (rev fs)") (simp_all add: Cons.IH find_snoc)
qed

lemma reconcile_loop_map:
  "reconcile_loop frames m result =
     result @ map (\<lambda>original. case m (frame_number original) of
                      Some d \<Rightarrow> \<lparr>description = d, frame_number = frame_number original\<rparr>
                    | None \<Rightarrow> original) frames"
  by (induction frames arbitrary: result) (simp_all split: option.splits)

lemma refine_from_response_length:
  "length (refine_from_response frames response) = length frames"
  by (simp add: refine_from_response_def Let_def reconcile_loop_map)

subsection \<open>Facts about the parsing of a refined reply\<close>

lemma refined_loop_map_filter:
  "refined_loop lines acc = acc @ List.map_filter parse_refined_line lines"
  by (induction lines arbitrary: acc) (simp_all add: List.map_filter_simps split: option.splits)

lemma startswith_Frame_nonempty: "startswith line ''Frame'' \<Longrightarrow> line \<noteq> []"
  by (auto simp: startswith_def)

lemma parse_refined_line_Some_iff:
  "(\<exists>f. parse_refined_line raw = Some f) \<longleftrightarrow> qualifies (strip raw)"
  using startswith_Frame_nonempty [of "strip raw"]
  by (auto simp: parse_refined_line_def qualifies_def split1_def Let_def split: option.splits)

subsection \<open>Facts about the generation replies\<close>

lemma call_llm_generate_reply:
  "CHR ''<'' \<notin> set t \<Longrightarrow>
   call_llm [\<lparr>role = ''system'', content = generate_system_message n\<rparr>,
             \<lparr>role = ''user'', content = generate_user_message prompt n\<rparr>] (success_reply t)
     = Inr (strip t)"
  by (rule call_llm_generated_text)

lemma call_llm_structured_reply:
  "CHR ''<'' \<notin> set t \<Longrightarrow>
   call_llm [\<lparr>role = ''system'', content = structured_system_message n\<rparr>,
             \<lparr>role = ''user'', content = generate_user_message prompt n\<rparr>] (success_reply t)
     = Inr (strip t)"
  by (rule call_llm_generated_text)

subsection \<open>More facts about stripping\<close>

lemma rstrip_append:
  "rstrip (a @ b) = (if rstrip b = [] then rstrip a else a @ rstrip b)"
  by (auto simp: rstrip_def dropWhile_append dropWhile_eq_Nil_conv)

lemma rstrip_Nil [simp]: "rstrip [] = []"
  by (simp add: rstrip_def)

lemma strip_Nil [simp]: "strip [] = []"
  by (simp add: strip_def lstrip_def)

lemma rstrip_snoc:
  "rstrip (s @ [c]) = (if isspace c then rstrip s else s @ [c])"
  by (simp add: rstrip_def)

lemma length_rstrip: "length (rstrip s) \<le> length s"
  by (simp add: rstrip_def length_dropWhile_le [of isspace "rev s", simplified])

lemma length_lstrip: "length (lstrip s) \<le> length s"
  by (simp add: lstrip_def length_dropWhile_le)

lemma set_rstrip: "set (rstrip s) \<subseteq> set s"
  using set_dropWhileD [of _ isspace "rev s"] by (auto simp: rstrip_def)

lemma dropWhile_none: "\<forall>x\<in>set xs. \<not> P x \<Longrightarrow> dropWhile P xs = xs"
  by (cases xs) auto

lemma strip_no_space: "\<forall>c\<in>set s. \<not> isspace c \<Longrightarrow> strip s = s"
  by (simp add: strip_def lstrip_def rstrip_def dropWhile_none)

lemma lstrip_rstrip_commute: "lstrip (rstrip s) = rstrip (lstrip s)"
proof (induction s)
  case Nil
  show ?case by (simp add: lstrip_def)
next
  case (Cons c s)
  show ?case
  proof (cases "isspace c")
    case True
    show ?thesis
    proof (cases "rstrip s = []")
      case True
      with \<open>isspace c\<close> have "rstrip (c # s) = []"
        using rstrip_append [of "[c]" s] by (simp add: rstrip_def)
      moreover from True have "rstrip (lstrip s) = []"
        using Cons.IH by (simp add: lstrip_def)
      ultimately show ?thesis using \<open>isspace c\<close> by (simp add: lstrip_def)
    next
      case False
      then have "rstrip (c # s) = c # rstrip s"
        using rstrip_append [of "[c]" s] by simp
      then show ?thesis using \<open>isspace c\<close> Cons.IH by (simp add: lstrip_def)
    qed
  next
    case False
    then show ?thesis by (simp add: rstrip_Cons_nonspace lstrip_def)
  qed
qed

lemma rstrip_idem [simp]: "rstrip (rstrip s) = rstrip s"
  by (simp add: rstrip_def)

lemma lstrip_idem [simp]: "lstrip (lstrip s) = lstrip s"
  by (simp add: lstrip_def)

lemma strip_rstrip [simp]: "strip (rstrip s) = strip s"
  by (simp add: strip_def)

lemma strip_idem [simp]: "strip (strip s) = strip s"
  by (simp add: strip_def lstrip_rstrip_commute)

lemma strip_lstrip [simp]: "strip (lstrip s) = strip s"
  by (simp add: strip_def lstrip_rstrip_commute [symmetric])

lemma strip_fixed_rstrip: "strip s = s \<Longrightarrow> rstrip s = s"
  by (metis strip_rstrip rstrip_idem strip_def lstrip_rstrip_commute)

lemma strip_space_Cons: "isspace c \<Longrightarrow> strip (c # s) = strip s"
  using strip_lstrip [of "c # s"] strip_lstrip [of s] by (simp add: lstrip_def)

subsection \<open>\<open>int\<close> reads what \<open>str\<close> writes\<close>

lemma digit_cases: "d < 10 \<Longrightarrow> d \<in> {0, 1, 2, 3, 4, 5, 6, 7, 8, 9::nat}"
  by auto

lemma digit_char_props:
  assumes "d < 10"
  shows "isdigit (digit_char d)" and "digit_value (digit_char d) = int d"
    and "digit_char d \<in> set ''0123456789''"
  using digit_cases [OF assms]
  by (auto simp: isdigit_def digit_char_def digit_value_def)

lemma digits_of_nonempty: "digits_of n \<noteq> []"
  by (subst digits_of.simps) simp

lemma set_digits_of: "set (digits_of n) \<subseteq> set ''0123456789''"
proof (induction n rule: digits_of.induct)
  case (1 n)
  show ?case
  proof (cases "n < 10")
    case True
    then show ?thesis
      using digit_char_props(3) [of n] by (subst digits_of.simps) simp
  next
    case False
    then show ?thesis
      using "1.IH" digit_char_props(3) [of "n mod 10"] by (subst digits_of.simps) simp
  qed
qed

lemma digits_acc_all_digits:
  "\<forall>c\<in>set s. isdigit c \<Longrightarrow>
   digits_acc acc s = Some (foldl (\<lambda>a c. a * 10 + digit_value c) acc s)"
  by (induction acc s rule: digits_acc.induct) auto

lemma digits_val_all_digits:
  "s \<noteq> [] \<Longrightarrow> \<forall>c\<in>set s. isdigit c \<Longrightarrow>
   digits_val s = Some (foldl (\<lambda>a c. a * 10 + digit_value c) 0 s)"
  by (cases s) (simp_all add: digits_val_def digits_acc_all_digits)

lemma foldl_digits_of:
  "foldl (\<lambda>a c. a * 10 + digit_value c) 0 (digits_of n) = int n"
proof (induction n rule: digits_of.induct)
  case (1 n)
  show ?case
  proof (cases "n < 10")
    case True
    then show ?thesis
      by (subst digits_of.simps) (simp add: digit_char_props)
  next
    case False
    then show ?thesis
      using "1.IH" by (subst digits_of.simps) (simp add: digit_char_props zmod_int zdiv_int)
  qed
qed

lemma digits_val_digits_of: "digits_val (digits_of n) = Some (int n)"
proof -
  have "\<forall>c\<in>set (digits_of n). isdigit c"
    unfolding isdigit_def using set_digits_of [of n] by blast
  then show ?thesis
    by (simp add: digits_val_all_digits digits_of_nonempty foldl_digits_of)
qed

lemma set_py_str: "set (py_str n) \<subseteq> set ''-0123456789''"
proof -
  have "set ''0123456789'' \<subseteq> set ''-0123456789''"
    by (simp add: subset_insertI2)
  then have "set (digits_of k) \<subseteq> set ''-0123456789''" for k
    using set_digits_of [of k] by (rule order_trans [rotated])
  then show ?thesis
    by (simp add: py_str_def)
qed

lemma minus_digit_no_space: "c \<in> set ''-0123456789'' \<Longrightarrow> \<not> isspace c"
  by (auto simp: isspace_def)

lemma py_str_no_space: "c \<in> set (py_str n) \<Longrightarrow> \<not> isspace c"
  using set_py_str [of n] minus_digit_no_space by blast

lemma py_str_nonempty: "py_str n \<noteq> []"
  by (simp add: py_str_def digits_of_nonempty)

lemma strip_py_str: "strip (py_str n) = py_str n"
  by (simp add: strip_no_space py_str_no_space)

lemma minus_digit_no_int_space: "c \<in> set ''-0123456789'' \<Longrightarrow> \<not> int_space c"
  by (auto simp: int_space_def)

lemma int_strip_py_str: "int_strip (py_str n) = py_str n"
proof -
  have "\<forall>c\<in>set (py_str n). \<not> int_space c"
    using set_py_str [of n] minus_digit_no_int_space by blast
  then show ?thesis
    by (simp add: int_strip_def dropWhile_none)
qed

lemma py_int_py_str: "py_int (py_str n) = Some n"
proof (cases "n < 0")
  case True
  have "int_strip (CHR ''-'' # digits_of (nat (- n))) = CHR ''-'' # digits_of (nat (- n))"
    using int_strip_py_str [of n] True by (simp add: py_str_def)
  with True show ?thesis
    by (simp add: py_int_def py_str_def digits_val_digits_of)
next
  case False
  obtain c cs where d: "digits_of (nat n) = c # cs"
    using digits_of_nonempty [of "nat n"] by (cases "digits_of (nat n)") auto
  then have "c \<in> set ''0123456789''"
    using set_digits_of [of "nat n"] by auto
  then have c: "c \<noteq> CHR ''-''" "c \<noteq> CHR ''+''"
    by auto
  have v: "digits_val (c # cs) = Some n"
    using digits_val_digits_of [of "nat n"] False by (simp add: d)
  have "int_strip (c # cs) = c # cs"
    using int_strip_py_str [of n] False by (simp add: py_str_def d)
  with c v False show ?thesis
    by (simp add: py_int_def py_str_def d)
qed

subsection \<open>Splitting what was joined\<close>

lemma split_nonempty: "split sep s \<noteq> []"
  by (induction s) (auto split: list.splits)

lemma split_no_sep: "sep \<notin> set s \<Longrightarrow> split sep s = [s]"
  by (induction s) auto

lemma split_append_sep:
  "sep \<notin> set a \<Longrightarrow> split sep (a @ sep # b) = a # split sep b"
  by (induction a) auto

lemma split_join:
  "ls \<noteq> [] \<Longrightarrow> \<forall>l\<in>set ls. sep \<notin> set l \<Longrightarrow> split sep (join [sep] ls) = ls"
proof (induction ls)
  case Nil
  then show ?case by simp
next
  case (Cons p ps)
  show ?case
  proof (cases ps)
    case Nil
    with Cons.prems show ?thesis by (simp add: split_no_sep)
  next
    case tail: (Cons q qs)
    have "split sep (join [sep] (p # q # qs)) = p # split sep (join [sep] (q # qs))"
      using Cons.prems by (simp add: split_append_sep)
    also have "split sep (join [sep] (q # qs)) = q # qs"
      using Cons.IH Cons.prems tail by simp
    finally show ?thesis using tail by simp
  qed
qed

subsection \<open>Parsing the line of a frame\<close>

lemma parse_refined_line_rstrip: "parse_refined_line (rstrip raw) = parse_refined_line raw"
  by (simp add: parse_refined_line_def)

lemma strip_frame_line:
  assumes "strip (description f) = description f"
  shows "strip (frame_line f) =
           ''Frame '' @ py_str (frame_number f) @ '':''
           @ (if description f = [] then [] else CHR '' '' # description f)"
proof (cases "description f = []")
  case True
  have "rstrip ((''rame '' @ py_str (frame_number f) @ '':'') @ [CHR '' ''])
          = rstrip ((''rame '' @ py_str (frame_number f)) @ [CHR '':''])"
    by (subst rstrip_snoc) (simp add: isspace_def)
  also have "\<dots> = (''rame '' @ py_str (frame_number f)) @ [CHR '':'']"
    by (subst rstrip_snoc) (simp add: isspace_def)
  finally show ?thesis
    using True by (simp add: frame_line_def strip_Cons_nonspace isspace_def)
next
  case False
  have r: "rstrip (description f) = description f"
    using assms by (rule strip_fixed_rstrip)
  have "rstrip ((''rame '' @ py_str (frame_number f) @ '': '') @ description f)
          = (''rame '' @ py_str (frame_number f) @ '': '') @ description f"
    using False by (subst rstrip_append) (simp add: r)
  then show ?thesis
    using False by (simp add: frame_line_def strip_Cons_nonspace isspace_def)
qed

lemma colon_not_in_py_str: "CHR '':'' \<notin> set (py_str n)"
  using set_py_str [of n] by auto

lemma F_not_in_py_str: "CHR ''F'' \<notin> set (py_str n)"
  using set_py_str [of n] by auto

lemma newline_not_in_py_str: "CHR ''\<newline>'' \<notin> set (py_str n)"
  using set_py_str [of n] by auto

lemma replace_Frame_prefix: "replace (''Frame '' @ py_str n) ''Frame'' [] = CHR '' '' # py_str n"
proof -
  have "replace_nonempty (CHR '' '' # py_str n) ''Frame'' [] = CHR '' '' # py_str n"
    by (rule replace_nonempty_absent [where c = "CHR ''F''"]) (simp_all add: F_not_in_py_str)
  then show ?thesis
    by (simp add: replace_def startswith_def)
qed

lemma takeWhile_until: "x \<notin> set a \<Longrightarrow> takeWhile (\<lambda>c. c \<noteq> x) (a @ x # r) = a"
  by (induction a) auto

lemma dropWhile_until: "x \<notin> set a \<Longrightarrow> dropWhile (\<lambda>c. c \<noteq> x) (a @ x # r) = x # r"
  by (induction a) auto

lemma parse_refined_line_frame_line:
  assumes "strip (description f) = description f"
  shows "parse_refined_line (frame_line f) = Some f"
proof -
  let ?num = "py_str (frame_number f)"
  let ?r = "if description f = [] then [] else CHR '' '' # description f"
  let ?line = "''Frame '' @ ?num @ '':'' @ ?r"
  have line: "strip (frame_line f) = ?line"
    using assms by (rule strip_frame_line)
  have before: "takeWhile (\<lambda>c. c \<noteq> CHR '':'') ?line = ''Frame '' @ ?num"
    using takeWhile_until [of "CHR '':''" "''Frame '' @ ?num" ?r]
    by (simp add: colon_not_in_py_str)
  have after: "tl (dropWhile (\<lambda>c. c \<noteq> CHR '':'') ?line) = ?r"
    using dropWhile_until [of "CHR '':''" "''Frame '' @ ?num" ?r]
    by (simp add: colon_not_in_py_str)
  have parts: "split1 CHR '':'' ?line = [''Frame '' @ ?num, ?r]"
    unfolding split1_def before after by simp
  have num: "py_int (strip (replace (''Frame '' @ ?num) ''Frame'' [])) = Some (frame_number f)"
    by (subst replace_Frame_prefix)
       (simp add: strip_space_Cons isspace_def strip_py_str py_int_py_str)
  have desc: "strip ?r = description f"
    using assms by (simp add: strip_space_Cons isspace_def)
  have sw: "startswith ?line ''Frame''"
    by (simp add: startswith_def)
  show ?thesis
    unfolding parse_refined_line_def line Let_def parts
    using num desc sw by simp
qed

subsection \<open>Refining an echoed sequence\<close>

lemma rstrip_append_keep: "rstrip b \<noteq> [] \<Longrightarrow> rstrip (a @ b) = a @ rstrip b"
  by (simp add: rstrip_append)

lemma join_snoc:
  "join sep (xs @ [l]) = (if xs = [] then l else join sep xs @ sep @ l)"
  by (induction sep xs rule: join.induct) auto

lemma frame_line_Cons: "frame_line f = CHR ''F'' # ''rame '' @ py_str (frame_number f) @ '': '' @ description f"
  by (simp add: frame_line_def)

lemma rstrip_frame_line_nonempty: "rstrip (frame_line f) \<noteq> []"
  by (simp add: frame_line_Cons rstrip_Cons_nonspace isspace_def)

lemma newline_not_in_frame_line:
  "CHR ''\<newline>'' \<notin> set (description f) \<Longrightarrow> CHR ''\<newline>'' \<notin> set (frame_line f)"
  by (simp add: frame_line_def newline_not_in_py_str)

lemma map_filter_frame_lines:
  "well_formatted frames \<Longrightarrow> List.map_filter parse_refined_line (map frame_line frames) = frames"
  by (induction frames)
     (simp_all add: well_formatted_def List.map_filter_simps parse_refined_line_frame_line)

lemma strip_frames_text:
  assumes "frames = fs @ [f]"
  shows "strip (frames_text frames) = join ''\<newline>'' (map frame_line fs @ [rstrip (frame_line f)])"
proof -
  let ?lines = "map frame_line fs"
  have ft: "frames_text frames = join ''\<newline>'' (?lines @ [frame_line f])"
    by (simp add: frames_text_def assms)
  have "\<exists>rest. frames_text frames = CHR ''F'' # rest"
  proof (cases fs)
    case Nil
    then show ?thesis by (simp add: ft frame_line_Cons)
  next
    case (Cons g gs)
    then show ?thesis
      by (cases "map frame_line gs @ [frame_line f]") (simp_all add: ft frame_line_Cons)
  qed
  then obtain rest where rest: "frames_text frames = CHR ''F'' # rest" ..
  have "strip (frames_text frames) = rstrip (frames_text frames)"
    by (simp add: rest strip_Cons_nonspace rstrip_Cons_nonspace isspace_def)
  also have "\<dots> = join ''\<newline>'' (?lines @ [rstrip (frame_line f)])"
  proof (cases "fs = []")
    case True
    then show ?thesis by (simp add: ft)
  next
    case False
    have "rstrip ((join ''\<newline>'' ?lines @ ''\<newline>'') @ frame_line f)
            = (join ''\<newline>'' ?lines @ ''\<newline>'') @ rstrip (frame_line f)"
      by (rule rstrip_append_keep) (rule rstrip_frame_line_nonempty)
    with False show ?thesis
      by (simp add: ft join_snoc)
  qed
  finally show ?thesis .
qed

lemma parsed_frames_echo:
  assumes "well_formatted frames"
  shows "parsed_frames (frames_text frames) = frames"
proof (cases frames rule: rev_cases)
  case Nil
  then show ?thesis
    by (simp add: parsed_frames_def frames_text_def parse_refined_line_def)
next
  case (snoc fs f)
  let ?lines = "map frame_line fs @ [rstrip (frame_line f)]"
  have nl: "\<forall>l\<in>set ?lines. CHR ''\<newline>'' \<notin> set l"
    using assms set_rstrip [of "frame_line f"]
    by (auto simp: snoc well_formatted_def list_all_iff dest: newline_not_in_frame_line)
  have "split CHR ''\<newline>'' (strip (frames_text frames)) = ?lines"
    unfolding strip_frames_text [OF snoc]
    using split_join [of ?lines "CHR ''\<newline>''"] nl by simp
  then have "parsed_frames (frames_text frames) = List.map_filter parse_refined_line ?lines"
    by (simp add: parsed_frames_def refined_loop_map_filter)
  also have "\<dots> = List.map_filter parse_refined_line (map frame_line frames)"
    by (simp add: List.map_filter_def snoc parse_refined_line_rstrip)
  finally show ?thesis
    using assms by (simp add: map_filter_frame_lines)
qed

subsection \<open>Facts about the image batch\<close>

lemma path_join_nonempty: "b \<noteq> [] \<Longrightarrow> path_join a b \<noteq> []"
  by (simp add: path_join_def)

lemma frame_images_loop_cong:
  "(\<And>j. i \<le> j \<Longrightarrow> j < i + length frames \<Longrightarrow> env j = env' j) \<Longrightarrow>
   frame_images_loop api_key decode output_dir env i frames image_paths
     = frame_images_loop api_key decode output_dir env' i frames image_paths"
proof (induction frames arbitrary: i image_paths)
  case Nil
  show ?case by simp
next
  case (Cons frame rest)
  have here: "env i = env' i"
    using Cons.prems [of i] by simp
  have rest: "frame_images_loop api_key decode output_dir env (Suc i) rest ps
               = frame_images_loop api_key decode output_dir env' (Suc i) rest ps" for ps
    using Cons.prems by (intro Cons.IH) simp_all
  show ?case
    by (simp add: here rest split: option.splits sum.splits)
qed

lemma frame_images_loop_shift:
  "frame_images_loop api_key decode output_dir env (Suc i) frames image_paths
     = frame_images_loop api_key decode output_dir (\<lambda>j. env (Suc j)) i frames image_paths"
  by (induction frames arbitrary: i image_paths) (simp_all split: option.splits sum.splits)

lemma frame_images_loop_append:
  "frame_images_loop api_key decode output_dir env i (fs1 @ fs2) image_paths
     = bind (frame_images_loop api_key decode output_dir env i fs1 image_paths)
         (frame_images_loop api_key decode output_dir env (i + length fs1) fs2)"
  by (induction fs1 arbitrary: i image_paths)
     (simp_all add: bind_def split: option.splits sum.splits)

lemma frame_images_loop_paths:
  assumes "\<And>j. i \<le> j \<Longrightarrow> j < i + length frames \<Longrightarrow> write_error (env j) = None"
  shows "frame_images_loop api_key decode output_dir env i frames image_paths
           = Inr (image_paths
                  @ List.map_filter (\<lambda>(j, frame). frame_path api_key decode output_dir (env j) frame)
                      (enumerate i frames))"
  using assms
proof (induction frames arbitrary: i image_paths)
  case Nil
  show ?case by (simp add: List.map_filter_simps)
next
  case (Cons frame rest)
  have w: "write_error (env i) = None"
    using Cons.prems [of i] by simp
  have rest: "frame_images_loop api_key decode output_dir env (Suc i) rest ps
           = Inr (ps @ List.map_filter (\<lambda>(j, frame). frame_path api_key decode output_dir (env j) frame)
                      (enumerate (Suc i) rest))" for ps
    using Cons.prems by (intro Cons.IH) simp_all
  show ?case
    by (simp add: rest w save_image_def frame_path_def List.map_filter_simps path_join_nonempty
        split: option.splits)
qed

lemma generate_image_no_key: "\<not> key_set api_key \<Longrightarrow> generate_image api_key decode out = None"
  by (simp add: generate_image_def)

lemma generate_image_bad_status:
  "status_code response \<noteq> 200 \<Longrightarrow> generate_image api_key decode (Inr response) = None"
  by (simp add: generate_image_def request_image_def bind_def)

lemma generate_image_no_artifact:
  "json response = Some (JObject kvs) \<Longrightarrow>
   map_of kvs ''artifacts'' = None \<or> map_of kvs ''artifacts'' = Some (JArray []) \<Longrightarrow>
   generate_image api_key decode (Inr response) = None"
  by (auto simp: generate_image_def request_image_def bind_def)

lemma generate_frame_images_skip:
  assumes "generate_image api_key decode (outcome (env (length fs1))) = None"
  shows "generate_frame_images api_key decode output_dir env (fs1 @ f # fs2)
           = generate_frame_images api_key decode output_dir (skip_env (length fs1) env) (fs1 @ fs2)"
proof -
  let ?k = "length fs1"
  let ?loop = "frame_images_loop api_key decode output_dir"
  have before: "?loop env 0 fs1 [] = ?loop (skip_env ?k env) 0 fs1 []"
    by (rule frame_images_loop_cong) (simp add: skip_env_def)
  have after: "?loop env ?k (f # fs2) ps = ?loop (skip_env ?k env) ?k fs2 ps" for ps
  proof -
    have "?loop env ?k (f # fs2) ps = ?loop env (Suc ?k) fs2 ps"
      using assms by simp
    also have "\<dots> = ?loop (\<lambda>j. env (Suc j)) ?k fs2 ps"
      by (rule frame_images_loop_shift)
    also have "\<dots> = ?loop (skip_env ?k env) ?k fs2 ps"
      by (rule frame_images_loop_cong) (simp add: skip_env_def)
    finally show ?thesis .
  qed
  have "?loop env 0 (fs1 @ f # fs2) [] = bind (?loop env 0 fs1 []) (?loop env ?k (f # fs2))"
    by (simp add: frame_images_loop_append)
  also have "\<dots> = bind (?loop (skip_env ?k env) 0 fs1 []) (?loop (skip_env ?k env) ?k fs2)"
    unfolding before using after by (simp add: bind_def split: sum.splits)
  also have "\<dots> = ?loop (skip_env ?k env) 0 (fs1 @ fs2) []"
    by (simp add: frame_images_loop_append)
  finally show ?thesis
    by (simp add: generate_frame_images_def)
qed

subsection \<open>Facts about the store\<close>

lemma take_list_append: "n \<le> l \<Longrightarrow> take n (list_append l a h) = take n h"
  by (simp add: list_append_def)

lemma length_list_append [simp]: "length (list_append l a h) = length h"
  by (simp add: list_append_def)

lemma refined_loop_heap_frame:
  "n \<le> l \<Longrightarrow> n \<le> length h \<Longrightarrow>
   take n (refined_loop_heap lines l h) = take n h \<and> length h \<le> length (refined_loop_heap lines l h)"
proof (induction lines arbitrary: h)
  case Nil
  show ?case by simp
next
  case (Cons raw lines)
  show ?case
  proof (cases "parse_refined_line raw")
    case None
    with Cons show ?thesis by simp
  next
    case (Some f)
    let ?h = "list_append l (length h) (h @ [Frame f])"
    have "take n (refined_loop_heap lines l ?h) = take n ?h
          \<and> length ?h \<le> length (refined_loop_heap lines l ?h)"
      using Cons.prems by (intro Cons.IH) simp_all
    then show ?thesis
      using Cons.prems Some by (simp add: alloc_def take_list_append)
  qed
qed

lemma reconcile_loop_heap_frame:
  "n \<le> l \<Longrightarrow> n \<le> length h \<Longrightarrow>
   take n (reconcile_loop_heap originals m l h) = take n h
   \<and> length h \<le> length (reconcile_loop_heap originals m l h)"
proof (induction originals arbitrary: h)
  case Nil
  show ?case by simp
next
  case (Cons original rest)
  show ?case
  proof (cases "m (frame_number (frame_at h original))")
    case None
    let ?h = "list_append l original h"
    have "take n (reconcile_loop_heap rest m l ?h) = take n ?h
          \<and> length ?h \<le> length (reconcile_loop_heap rest m l ?h)"
      using Cons.prems by (intro Cons.IH) simp_all
    then show ?thesis
      using Cons.prems None by (simp add: take_list_append)
  next
    case (Some d)
    let ?h = "list_append l (length h)
                (h @ [Frame \<lparr>description = d, frame_number = frame_number (frame_at h original)\<rparr>])"
    have "take n (reconcile_loop_heap rest m l ?h) = take n ?h
          \<and> length ?h \<le> length (reconcile_loop_heap rest m l ?h)"
      using Cons.prems by (intro Cons.IH) simp_all
    then show ?thesis
      using Cons.prems Some by (simp add: alloc_def take_list_append)
  qed
qed

lemma refine_from_response_heap_frame:
  assumes "refine_from_response_heap frames response h = (result, h')"
  shows "take (length h) h' = h \<and> length h \<le> length h'"
proof -
  let ?n = "length h"
  let ?h1 = "h @ [PyList []]"
  let ?h2 = "refined_loop_heap (split CHR ''\<newline>'' (strip response)) ?n ?h1"
  have h2: "take ?n ?h2 = take ?n ?h1 \<and> length ?h1 \<le> length ?h2"
    by (rule refined_loop_heap_frame) simp_all
  show ?thesis
  proof (cases "length (list_at ?h2 ?n) \<noteq> length (list_at ?h2 frames)")
    case False
    then have "h' = ?h2"
      using assms by (auto simp: refine_from_response_heap_def alloc_def Let_def)
    with h2 show ?thesis by simp
  next
    case True
    let ?m = "refined_map_of (map (frame_at ?h2) (list_at ?h2 ?n)) Map.empty"
    let ?h3 = "?h2 @ [PyList []]"
    let ?h4 = "reconcile_loop_heap (list_at ?h3 frames) ?m (length ?h2) ?h3"
    have "h' = ?h4"
      using assms True by (auto simp: refine_from_response_heap_def alloc_def Let_def)
    moreover have "take ?n ?h4 = take ?n ?h3 \<and> length ?h3 \<le> length ?h4"
      using h2 by (intro reconcile_loop_heap_frame) simp_all
    ultimately show ?thesis
      using h2 by simp
  qed
qed

lemma list_append_at:
  "l < length h \<Longrightarrow> h ! l = PyList items \<Longrightarrow>
   list_append l a h = h[l := PyList (items @ [a])]"
  by (simp add: list_append_def list_at_def)

lemma refined_loop_heap_closed:
  "l < length h \<Longrightarrow> h ! l = PyList items \<Longrightarrow>
   refined_loop_heap lines l h
     = (h @ map Frame (List.map_filter parse_refined_line lines))
         [l := PyList (items @ [length h ..< length h + length (List.map_filter parse_refined_line lines)])]"
proof (induction lines arbitrary: h items)
  case Nil
  then show ?case
    by (simp add: List.map_filter_simps list_update_same_conv [THEN iffD2])
next
  case (Cons raw lines)
  show ?case
  proof (cases "parse_refined_line raw")
    case None
    with Cons show ?thesis by (simp add: List.map_filter_simps)
  next
    case (Some f)
    let ?fs = "List.map_filter parse_refined_line lines"
    let ?h1 = "(h @ [Frame f])[l := PyList (items @ [length h])]"
    have step: "list_append l (length h) (h @ [Frame f]) = ?h1"
      using Cons.prems by (intro list_append_at) (simp_all add: nth_append)
    have "refined_loop_heap lines l ?h1
            = (?h1 @ map Frame ?fs)
                [l := PyList ((items @ [length h]) @ [length ?h1 ..< length ?h1 + length ?fs])]"
      using Cons.prems by (intro Cons.IH) simp_all
    also have "\<dots> = (h @ map Frame (f # ?fs))
                [l := PyList (items @ [length h ..< length h + length (f # ?fs)])]"
    proof -
      have "length h < length h + length (f # ?fs)"
        by simp
      then have "[length h ..< length h + length (f # ?fs)]
                 = length h # [Suc (length h) ..< length h + length (f # ?fs)]"
        by (rule upt_conv_Cons)
      moreover have "Suc (length h) = length ?h1"
        and "length h + length (f # ?fs) = length ?h1 + length ?fs"
        by simp_all
      ultimately have u: "[length h ..< length h + length (f # ?fs)]
                 = length h # [length ?h1 ..< length ?h1 + length ?fs]"
        by (simp only:)
      have "?h1 @ map Frame ?fs = (h @ map Frame (f # ?fs))[l := PyList (items @ [length h])]"
        using Cons.prems by (simp add: list_update_append1)
      then show ?thesis
        unfolding u by simp
    qed
    finally show ?thesis
      using Some by (simp add: alloc_def step List.map_filter_simps)
  qed
qed

lemma reconcile_loop_heap_result:
  assumes "res < length h" and "h ! res = PyList rs"
    and "\<forall>a\<in>set (originals @ rs). a < length h \<and> a \<noteq> res"
  shows "(\<exists>out. reconcile_loop_heap originals m res h ! res = PyList (rs @ out)
              \<and> map (frame_at (reconcile_loop_heap originals m res h)) (rs @ out)
                  = map (frame_at h) rs @ map (reconciled m) (map (frame_at h) originals)
              \<and> list_all2 (\<lambda>a original. a = original \<or> length h \<le> a) out originals)
         \<and> (\<forall>a<length h. a \<noteq> res \<longrightarrow> reconcile_loop_heap originals m res h ! a = h ! a)
         \<and> length h \<le> length (reconcile_loop_heap originals m res h)"
  using assms
proof (induction originals arbitrary: h rs)
  case Nil
  then show ?case by simp
next
  case (Cons original rest)
  let ?f = "frame_at h original"
  show ?case
  proof (cases "m (frame_number ?f)")
    case None
    let ?h1 = "h[res := PyList (rs @ [original])]"
    have step: "list_append res original h = ?h1"
      using Cons.prems by (intro list_append_at) simp_all
    have same: "frame_at ?h1 a = frame_at h a" if "a \<noteq> res" for a
      using that by (simp add: frame_at_def)
    have loop: "reconcile_loop_heap (original # rest) m res h = reconcile_loop_heap rest m res ?h1"
      using None by (simp add: step)
    have inv: "res < length ?h1" "?h1 ! res = PyList (rs @ [original])"
      "\<forall>a\<in>set (rest @ (rs @ [original])). a < length ?h1 \<and> a \<noteq> res"
      using Cons.prems by auto
    note IH = Cons.IH [OF inv]
    from IH obtain out where out:
      "reconcile_loop_heap rest m res ?h1 ! res = PyList ((rs @ [original]) @ out)"
      "map (frame_at (reconcile_loop_heap rest m res ?h1)) ((rs @ [original]) @ out)
         = map (frame_at ?h1) (rs @ [original]) @ map (reconciled m) (map (frame_at ?h1) rest)"
      "list_all2 (\<lambda>a original. a = original \<or> length ?h1 \<le> a) out rest"
      by blast
    have m1: "map (frame_at ?h1) (rs @ [original]) = map (frame_at h) rs @ [?f]"
      using Cons.prems by (simp add: same)
    have m2: "map (frame_at ?h1) rest = map (frame_at h) rest"
      using Cons.prems by (simp add: same)
    have r: "reconciled m ?f = ?f"
      using None by (simp add: reconciled_def)
    have "reconcile_loop_heap (original # rest) m res h ! res = PyList (rs @ (original # out))
          \<and> map (frame_at (reconcile_loop_heap (original # rest) m res h)) (rs @ (original # out))
              = map (frame_at h) rs @ map (reconciled m) (map (frame_at h) (original # rest))
          \<and> list_all2 (\<lambda>a original. a = original \<or> length h \<le> a) (original # out) (original # rest)"
      using out unfolding loop m1 m2 by (simp add: r)
    then have ex: "\<exists>out. reconcile_loop_heap (original # rest) m res h ! res = PyList (rs @ out)
          \<and> map (frame_at (reconcile_loop_heap (original # rest) m res h)) (rs @ out)
              = map (frame_at h) rs @ map (reconciled m) (map (frame_at h) (original # rest))
          \<and> list_all2 (\<lambda>a original. a = original \<or> length h \<le> a) out (original # rest)"
      by blast
    have keep: "\<forall>a<length h. a \<noteq> res \<longrightarrow> reconcile_loop_heap (original # rest) m res h ! a = h ! a"
      using IH unfolding loop by simp
    have len: "length h \<le> length (reconcile_loop_heap (original # rest) m res h)"
      using IH unfolding loop by simp
    from ex keep len show ?thesis by blast
  next
    case (Some d)
    let ?new = "\<lparr>description = d, frame_number = frame_number ?f\<rparr>"
    let ?h1 = "(h @ [Frame ?new])[res := PyList (rs @ [length h])]"
    have step: "list_append res (length h) (h @ [Frame ?new]) = ?h1"
      using Cons.prems by (intro list_append_at) (simp_all add: nth_append)
    have same: "frame_at ?h1 a = frame_at h a" if "a \<noteq> res" "a < length h" for a
      using that by (simp add: frame_at_def nth_append)
    have fresh: "frame_at ?h1 (length h) = ?new"
      using Cons.prems by (simp add: frame_at_def)
    have loop: "reconcile_loop_heap (original # rest) m res h = reconcile_loop_heap rest m res ?h1"
      using Some by (simp add: step alloc_def)
    have inv: "res < length ?h1" "?h1 ! res = PyList (rs @ [length h])"
      "\<forall>a\<in>set (rest @ (rs @ [length h])). a < length ?h1 \<and> a \<noteq> res"
      using Cons.prems by (auto simp: less_Suc_eq)
    note IH = Cons.IH [OF inv]
    from IH obtain out where out:
      "reconcile_loop_heap rest m res ?h1 ! res = PyList ((rs @ [length h]) @ out)"
      "map (frame_at (reconcile_loop_heap rest m res ?h1)) ((rs @ [length h]) @ out)
         = map (frame_at ?h1) (rs @ [length h]) @ map (reconciled m) (map (frame_at ?h1) rest)"
      "list_all2 (\<lambda>a original. a = original \<or> length ?h1 \<le> a) out rest"
      by blast
    have m1: "map (frame_at ?h1) (rs @ [length h]) = map (frame_at h) rs @ [?new]"
      using Cons.prems by (simp add: same fresh)
    have m2: "map (frame_at ?h1) rest = map (frame_at h) rest"
      using Cons.prems by (simp add: same)
    have r: "reconciled m ?f = ?new"
      using Some by (simp add: reconciled_def)
    have all2: "list_all2 (\<lambda>a original. a = original \<or> length h \<le> a) out rest"
      using out(3) by (rule list_all2_mono) auto
    have "reconcile_loop_heap (original # rest) m res h ! res = PyList (rs @ (length h # out))
          \<and> map (frame_at (reconcile_loop_heap (original # rest) m res h)) (rs @ (length h # out))
              = map (frame_at h) rs @ map (reconciled m) (map (frame_at h) (original # rest))
          \<and> list_all2 (\<lambda>a original. a = original \<or> length h \<le> a) (length h # out) (original # rest)"
      using out(1,2) all2 unfolding loop m1 m2 by (simp add: r)
    then have ex: "\<exists>out. reconcile_loop_heap (original # rest) m res h ! res = PyList (rs @ out)
          \<and> map (frame_at (reconcile_loop_heap (original # rest) m res h)) (rs @ out)
              = map (frame_at h) rs @ map (reconciled m) (map (frame_at h) (original # rest))
          \<and> list_all2 (\<lambda>a original. a = original \<or> length h \<le> a) out (original # rest)"
      by blast
    have keep: "\<forall>a<length h. a \<noteq> res \<longrightarrow> reconcile_loop_heap (original # rest) m res h ! a = h ! a"
      using IH unfolding loop by (simp add: nth_append)
    have len: "length h \<le> length (reconcile_loop_heap (original # rest) m res h)"
      using IH unfolding loop by simp
    from ex keep len show ?thesis by blast
  qed
qed

lemma map_nth_append_fresh:
  "map (\<lambda>a. (xs @ ys) ! a) [length xs ..< length xs + length ys] = ys"
proof -
  have "[length xs ..< length xs + length ys] = map (\<lambda>i. i + length xs) [0 ..< length ys]"
    by (simp only: map_add_upt add.commute)
  then have "map (\<lambda>a. (xs @ ys) ! a) [length xs ..< length xs + length ys]
               = map (\<lambda>i. (xs @ ys) ! (length xs + i)) [0 ..< length ys]"
    by (simp only: map_map comp_def add.commute)
  also have "\<dots> = map (\<lambda>i. ys ! i) [0 ..< length ys]"
    by (simp only: nth_append_length_plus)
  also have "\<dots> = ys"
    by (rule map_nth)
  finally show ?thesis .
qed

lemma refined_loop_heap_fresh_list:
  fixes h :: heap and response :: string
  defines "n \<equiv> length h"
  defines "fs \<equiv> parsed_frames response"
  defines "h2 \<equiv> refined_loop_heap (split CHR ''\<newline>'' (strip response)) n (h @ [PyList []])"
  shows "h2 = (h @ PyList [Suc n ..< Suc n + length fs] # map Frame fs)"
    and "list_at h2 n = [Suc n ..< Suc n + length fs]"
    and "frames_at h2 n = fs"
proof -
  have fs: "fs = List.map_filter parse_refined_line (split CHR ''\<newline>'' (strip response))"
    by (simp add: fs_def parsed_frames_def refined_loop_map_filter)
  have "h2 = ((h @ [PyList []]) @ map Frame fs)
               [n := PyList ([] @ [length (h @ [PyList []]) ..< length (h @ [PyList []]) + length fs])]"
    unfolding h2_def fs by (rule refined_loop_heap_closed) (simp_all add: n_def)
  then show h2: "h2 = (h @ PyList [Suc n ..< Suc n + length fs] # map Frame fs)"
    by (simp add: n_def)
  then show l: "list_at h2 n = [Suc n ..< Suc n + length fs]"
    by (simp add: list_at_def n_def)
  have "map (frame_at h2) [Suc n ..< Suc n + length fs]
          = map (\<lambda>a. case a of Frame f \<Rightarrow> f | PyList items \<Rightarrow> \<lparr>description = [], frame_number = 0\<rparr>)
              (map (\<lambda>a. ((h @ [PyList [Suc n ..< Suc n + length fs]]) @ map Frame fs) ! a)
                 [length (h @ [PyList [Suc n ..< Suc n + length fs]])
                  ..< length (h @ [PyList [Suc n ..< Suc n + length fs]]) + length (map Frame fs)])"
    by (simp add: h2 frame_at_def n_def)
  also have "\<dots> = fs"
    by (subst map_nth_append_fresh) (simp add: comp_def)
  finally show "frames_at h2 n = fs"
    by (simp add: frames_at_def l)
qed

lemma reconcile_loop_reconciled:
  "reconcile_loop frames m [] = map (reconciled m) frames"
  by (simp add: reconcile_loop_map reconciled_def)

lemma refine_from_response_heap_refines:
  assumes valid: "valid_input h frames"
    and run: "refine_from_response_heap frames response h = (result, h')"
  shows "frames_at h' result = refine_from_response (frames_at h frames) response"
    and "list_all (\<lambda>a. a \<in> set (list_at h frames) \<or> length h \<le> a) (list_at h' result)"
proof -
  let ?n = "length h"
  let ?fs = "parsed_frames response"
  let ?h2 = "refined_loop_heap (split CHR ''\<newline>'' (strip response)) ?n (h @ [PyList []])"
  note h2 = refined_loop_heap_fresh_list [where h = h and response = response]
  have in_range: "frames < ?n" and addrs: "\<forall>a\<in>set (list_at h frames). a < ?n"
    using valid by (auto simp: valid_input_def list_all_iff)
  have list2: "list_at ?h2 frames = list_at h frames"
    using in_range by (simp add: h2(1) list_at_def nth_append)
  have frame2: "frame_at ?h2 a = frame_at h a" if "a < ?n" for a
    using that by (simp add: h2(1) frame_at_def nth_append)
  have frames2: "frames_at ?h2 frames = frames_at h frames"
    using addrs by (simp add: frames_at_def list2 frame2)
  have len2: "length ?h2 = Suc ?n + length ?fs"
    by (simp add: h2(1))
  have pure: "refine_from_response (frames_at h frames) response
                = (if length ?fs \<noteq> length (list_at h frames)
                   then map (reconciled (refined_map_of ?fs Map.empty)) (frames_at h frames)
                   else ?fs)"
    by (simp add: refine_from_response_def parsed_frames_def Let_def reconcile_loop_reconciled
        frames_at_def)
  have "length [Suc ?n ..< Suc ?n + length ?fs] = length ?fs"
    by (simp only: length_upt add_diff_cancel_left')
  then have lenl: "length (list_at ?h2 ?n) = length ?fs"
    by (simp only: h2(2))
  have mapfs: "map (frame_at ?h2) (list_at ?h2 ?n) = ?fs"
    using h2(3) by (simp add: frames_at_def)
  let ?m = "refined_map_of ?fs Map.empty"
  let ?h3 = "?h2 @ [PyList []]"
  let ?res = "length ?h2"
  let ?h4 = "reconcile_loop_heap (list_at h frames) ?m ?res ?h3"
  have list3: "list_at ?h3 frames = list_at h frames"
    using in_range list2 by (simp add: list_at_def nth_append len2)
  have frame3: "frame_at ?h3 a = frame_at h a" if "a < ?n" for a
    using that frame2 [of a] by (simp add: frame_at_def nth_append len2)
  have heap: "refine_from_response_heap frames response h
                = (if length ?fs \<noteq> length (list_at h frames) then (?res, ?h4) else (?n, ?h2))"
    by (simp add: refine_from_response_heap_def alloc_def Let_def lenl mapfs list2 list3)
  have main: "frames_at h' result = refine_from_response (frames_at h frames) response
      \<and> list_all (\<lambda>a. a \<in> set (list_at h frames) \<or> length h \<le> a) (list_at h' result)"
  proof (cases "length ?fs \<noteq> length (list_at h frames)")
    case False
    then have "result = ?n \<and> h' = ?h2"
      using run unfolding heap by auto
    then have eq: "result = ?n" "h' = ?h2"
      by simp_all
    have a: "frames_at h' result = refine_from_response (frames_at h frames) response"
      using False by (simp add: eq pure h2(3))
    have b: "list_all (\<lambda>a. a \<in> set (list_at h frames) \<or> length h \<le> a) (list_at h' result)"
      by (auto simp: eq h2(2) list_all_iff)
    from a b show ?thesis by simp
  next
    case True
    have out: "result = ?res \<and> h' = ?h4"
      using run True unfolding heap by auto
    have inv1: "?res < length ?h3" and inv2: "?h3 ! ?res = PyList []"
      by simp_all
    have inv3: "\<forall>a\<in>set (list_at h frames @ []). a < length ?h3 \<and> a \<noteq> ?res"
      using addrs by (auto simp: len2)
    note inv = inv1 inv2 inv3
    from reconcile_loop_heap_result [OF inv, of ?m]
    obtain out where o:
      "?h4 ! ?res = PyList ([] @ out)"
      "map (frame_at ?h4) ([] @ out)
         = map (frame_at ?h3) [] @ map (reconciled ?m) (map (frame_at ?h3) (list_at h frames))"
      "list_all2 (\<lambda>a original. a = original \<or> length ?h3 \<le> a) out (list_at h frames)"
      by blast
    have deref: "map (frame_at ?h3) (list_at h frames) = frames_at h frames"
      using addrs by (simp add: frames_at_def frame3)
    have lout: "list_at ?h4 ?res = out"
      using o(1) by (simp add: list_at_def)
    have "map (frame_at ?h4) out = map (reconciled ?m) (map (frame_at ?h3) (list_at h frames))"
      using o(2) by simp
    then have "frames_at ?h4 ?res = map (reconciled ?m) (frames_at h frames)"
      unfolding deref by (simp add: frames_at_def lout)
    then have a: "frames_at h' result = refine_from_response (frames_at h frames) response"
      using True out by (simp add: pure)
    have "a \<in> set (list_at h frames) \<or> ?n \<le> a" if "a \<in> set out" for a
    proof -
      from that obtain i where i: "i < length out" "out ! i = a"
        by (auto simp: in_set_conv_nth)
      with o(3) have "a = list_at h frames ! i \<or> length ?h3 \<le> a" "i < length (list_at h frames)"
        by (auto simp: list_all2_conv_all_nth)
      then show ?thesis
        by (auto simp: len2)
    qed
    then have b: "list_all (\<lambda>a. a \<in> set (list_at h frames) \<or> length h \<le> a) (list_at h' result)"
      using out by (simp add: lout list_all_iff)
    from a b show ?thesis by simp
  qed
  then show "frames_at h' result = refine_from_response (frames_at h frames) response"
    and "list_all (\<lambda>a. a \<in> set (list_at h frames) \<or> length h \<le> a) (list_at h' result)"
    by simp_all
qed

subsection \<open>Facts about the generation paths\<close>

text \<open>The structured pass returns as many frames as requested; the first pass numbers the
  lines it accepts from 1 without a gap, and \<open>generate_frame_sequence\<close> returns at least
  the number of frames requested.\<close>

lemma pad_frames_length:
  "length (pad_frames frames num_frames prompt) = max (length frames) (nat num_frames)"
proof (induction frames num_frames prompt rule: pad_frames.induct)
  case (1 frames num_frames prompt)
  show ?case
  proof (cases "int (length frames) < num_frames")
    case True
    have "length (pad_frames frames num_frames prompt)
            = length (pad_frames
                 (frames @ [\<lparr>description = ''Continuation of the scene from '' @ prompt,
                             frame_number = int (length frames) + 1\<rparr>]) num_frames prompt)"
      using True by (subst pad_frames.simps) simp
    also have "\<dots> = max (Suc (length frames)) (nat num_frames)"
      using "1.IH" [OF True] by simp
    finally show ?thesis using True by linarith
  next
    case False
    then have "pad_frames frames num_frames prompt = frames"
      by (subst pad_frames.simps) simp
    with False show ?thesis by simp
  qed
qed

lemma structured_loop_length:
  "length (structured_loop (enumerate k lines) num_frames frames)
     \<le> length frames + (nat num_frames - k)"
proof (induction lines arbitrary: k frames)
  case Nil
  show ?case by simp
next
  case (Cons raw lines)
  show ?case
  proof (cases "strip raw \<noteq> [] \<and> int k < num_frames")
    case True
    define f where "f = \<lparr>description = (if CHR '':'' \<in> set (strip raw)
                                         then strip (last (split1 CHR '':'' (strip raw)))
                                         else strip raw),
                          frame_number = int k + 1\<rparr>"
    have eq: "structured_loop (enumerate k (raw # lines)) num_frames frames
            = structured_loop (enumerate (Suc k) lines) num_frames (frames @ [f])"
      using True by (simp add: Let_def f_def)
    have "length (structured_loop (enumerate (Suc k) lines) num_frames (frames @ [f]))
                     \<le> length (frames @ [f]) + (nat num_frames - Suc k)"
      by (rule Cons.IH)
    moreover have "k < nat num_frames"
      using True by linarith
    ultimately show ?thesis
      unfolding eq by simp
  next
    case False
    then have eq: "structured_loop (enumerate k (raw # lines)) num_frames frames
            = structured_loop (enumerate (Suc k) lines) num_frames frames"
      by (auto simp: Let_def)
    have "length (structured_loop (enumerate (Suc k) lines) num_frames frames)
                     \<le> length frames + (nat num_frames - Suc k)"
      by (rule Cons.IH)
    then show ?thesis
      unfolding eq by simp
  qed
qed

lemma structured_from_response_length:
  "0 \<le> num_frames \<Longrightarrow>
   int (length (structured_from_response prompt num_frames response)) = num_frames"
  using structured_loop_length [of 0 "split CHR ''\<newline>'' (strip response)" num_frames "[]"]
  by (simp add: structured_from_response_def Let_def pad_frames_length)

lemma parse_loop_numbers:
  "\<exists>k. parse_loop lines (int n) frames = frames @ k
       \<and> map frame_number k = map int [n ..< n + length k]"
proof (induction lines arbitrary: n frames)
  case Nil
  show ?case by simp
next
  case (Cons raw lines)
  let ?line = "strip raw"
  show ?case
  proof (cases "?line \<noteq> [] \<and> (startswith ?line ''Frame''
                       \<or> startswith ?line (py_str (int n) @ ''.'')
                       \<or> startswith ?line (py_str (int n) @ '':''))")
    case False
    then have "parse_loop (raw # lines) (int n) frames = parse_loop lines (int n) frames"
      by (auto simp: Let_def)
    with Cons.IH [of n frames] show ?thesis by simp
  next
    case True
    define f where "f = \<lparr>description = (if CHR '':'' \<in> set ?line
                                         then strip (last (split1 CHR '':'' ?line))
                                         else strip (last (split1 CHR ''.'' ?line))),
                          frame_number = int n\<rparr>"
    have fn: "frame_number f = int n"
      by (simp add: f_def)
    have "parse_loop (raw # lines) (int n) frames
            = parse_loop lines (int n + 1) (frames @ [f])"
      using True by (simp add: Let_def f_def)
    also have "int n + 1 = int (Suc n)"
      by simp
    finally have step: "parse_loop (raw # lines) (int n) frames
            = parse_loop lines (int (Suc n)) (frames @ [f])" .
    from Cons.IH [of "Suc n" "frames @ [f]"]
    obtain k where k: "parse_loop lines (int (Suc n)) (frames @ [f]) = (frames @ [f]) @ k"
      "map frame_number k = map int [Suc n ..< Suc n + length k]"
      by blast
    have "n < n + length (f # k)"
      by simp
    then have "[n ..< n + length (f # k)] = n # [Suc n ..< n + length (f # k)]"
      by (rule upt_conv_Cons)
    moreover have "n + length (f # k) = Suc n + length k"
      by simp
    ultimately have "[n ..< n + length (f # k)] = n # [Suc n ..< Suc n + length k]"
      by (simp only:)
    then have "map frame_number (f # k) = map int [n ..< n + length (f # k)]"
      by (simp only: list.map fn k(2))
    with k(1) step have "parse_loop (raw # lines) (int n) frames = frames @ (f # k)
        \<and> map frame_number (f # k) = map int [n ..< n + length (f # k)]"
      by simp
    then show ?thesis by blast
  qed
qed

lemma first_pass_numbers:
  "map frame_number (first_pass response) = map int [1 ..< 1 + length (first_pass response)]"
  using parse_loop_numbers [of "split CHR ''\<newline>'' (strip response)" 1 "[]"]
  by (auto simp: first_pass_def)

lemma generate_frame_sequence_count:
  assumes "0 \<le> num_frames"
    and "generate_frame_sequence prompt num_frames http1 http2 = Inr frames"
  shows "num_frames \<le> int (length frames)"
  using assms structured_from_response_length [of num_frames prompt]
  by (auto simp: generate_frame_sequence_def generate_structured_frame_sequence_def Let_def
      split: sum.splits if_splits)

subsection \<open>The first pass produces well-formatted sequences\<close>

lemma split_parts_no_sep: "l \<in> set (split sep s) \<Longrightarrow> sep \<notin> set l"
proof (induction s arbitrary: l)
  case Nil
  then show ?case by simp
next
  case (Cons c s)
  show ?case
  proof (cases "c = sep")
    case True
    with Cons show ?thesis by auto
  next
    case False
    obtain w ws where w: "split sep s = w # ws"
      using split_nonempty [of sep s] by (cases "split sep s") auto
    with Cons False show ?thesis by auto
  qed
qed

lemma set_lstrip: "set (lstrip s) \<subseteq> set s"
  using set_dropWhileD [of _ isspace s] by (auto simp: lstrip_def)

lemma set_strip: "set (strip s) \<subseteq> set s"
  using set_lstrip [of "rstrip s"] set_rstrip [of s] by (auto simp: strip_def)

lemma set_tl_subset: "set (tl xs) \<subseteq> set xs"
  by (cases xs) auto

lemma set_dropWhile_subset: "set (dropWhile P xs) \<subseteq> set xs"
  by (induction xs) auto

lemma set_last_split1: "set (last (split1 sep s)) \<subseteq> set s"
proof -
  have "set (tl (dropWhile (\<lambda>c. c \<noteq> sep) s)) \<subseteq> set (dropWhile (\<lambda>c. c \<noteq> sep) s)"
    by (rule set_tl_subset)
  also have "\<dots> \<subseteq> set s"
    by (rule set_dropWhile_subset)
  finally show ?thesis
    by (simp add: split1_def)
qed

lemma one_line_description:
  assumes "CHR ''\<newline>'' \<notin> set raw"
  shows "CHR ''\<newline>'' \<notin> set (strip (last (split1 sep (strip raw))))"
  using assms set_strip [of raw] set_last_split1 [of sep "strip raw"]
    set_strip [of "last (split1 sep (strip raw))"]
  by blast

lemma parse_loop_well_formatted:
  "well_formatted frames \<Longrightarrow> \<forall>raw\<in>set lines. CHR ''\<newline>'' \<notin> set raw \<Longrightarrow>
   well_formatted (parse_loop lines frame_num frames)"
proof (induction lines arbitrary: frame_num frames)
  case Nil
  then show ?case by simp
next
  case (Cons raw lines)
  have nl: "CHR ''\<newline>'' \<notin> set raw"
    using Cons.prems(2) by simp
  have rest: "well_formatted (parse_loop lines k fs)" if "well_formatted fs" for k fs
    using that Cons.prems(2) by (intro Cons.IH) simp_all
  have ext: "well_formatted (frames @ [\<lparr>description = strip (last (split1 sep (strip raw))),
                                         frame_number = frame_num\<rparr>])" for sep
    using Cons.prems(1) one_line_description [OF nl, of sep] by (simp add: well_formatted_def)
  show ?case
    using Cons.prems(1) by (auto simp: Let_def intro!: rest ext)
qed

lemma first_pass_well_formatted: "well_formatted (first_pass response)"
  unfolding first_pass_def Let_def
  by (rule parse_loop_well_formatted) (auto simp: well_formatted_def dest: split_parts_no_sep)

subsection \<open>When the completion call raises\<close>

lemma generated_text_raises:
  "(\<exists>e. generated_text x prompt = Inl e) \<longleftrightarrow> \<not> has_generated_text x"
  by (auto simp: generated_text_def has_generated_text_def
      split: json_value.splits option.splits)

lemma call_llm_raises_iff:
  "(\<exists>e. call_llm messages http = Inl e)
     \<longleftrightarrow> status_code http \<noteq> 200 \<or> \<not> readable_body (json http)"
proof (cases "status_code http = 200")
  case False
  then show ?thesis by (simp add: call_llm_def)
next
  case True
  show ?thesis
  proof (cases "json http")
    case None
    with True show ?thesis by (simp add: call_llm_def readable_body_def)
  next
    case (Some body)
    show ?thesis
    proof (cases body)
      case (JArray xs)
      then show ?thesis
        using True Some generated_text_raises [of "hd xs" "format_messages messages"]
        by (cases xs) (simp_all add: call_llm_def readable_body_def)
    next
      case (JObject kvs)
      then show ?thesis
        using True Some generated_text_raises [of "JObject kvs" "format_messages messages"]
        by (simp add: call_llm_def readable_body_def)
    qed (use True Some in \<open>simp_all add: call_llm_def readable_body_def\<close>)
  qed
qed

lemma call_llm_returns_text:
  assumes "status_code http = 200"
    and "json http = Some (JObject kvs) \<or> json http = Some (JArray (JObject kvs # rest))"
    and "map_of kvs ''generated_text'' = Some (JString t)"
  shows "call_llm messages http = Inr (strip (replace t (format_messages messages) []))"
  using assms by (auto simp: call_llm_def generated_text_def)

subsection \<open>The reconciliation, when it runs\<close>

text \<open>When the number of parsed frames differs from the number of input frames, the output
  has one frame per input frame, in order and with the input's number; its description is
  that of the last parsed frame with this number, when there is one.\<close>

lemma reconciliation_when_counts_differ:
  assumes "call_llm (refine_messages frames prompt) http = Inr response"
    and "length (parsed_frames response) \<noteq> length frames"
  shows "refine_frame_sequence frames prompt http =
           Inr (map (\<lambda>original.
                       case last_occurrence (parsed_frames response) (frame_number original) of
                         Some f \<Rightarrow> \<lparr>description = description f,
                                    frame_number = frame_number original\<rparr>
                       | None \<Rightarrow> original) frames)"
proof -
  have "refine_from_response frames response =
          reconcile_loop frames (refined_map_of (parsed_frames response) Map.empty) []"
    using assms(2) by (simp add: refine_from_response_def parsed_frames_def Let_def)
  also have "\<dots> = map (\<lambda>original.
                       case last_occurrence (parsed_frames response) (frame_number original) of
                         Some f \<Rightarrow> \<lparr>description = description f,
                                    frame_number = frame_number original\<rparr>
                       | None \<Rightarrow> original) frames"
    by (simp add: reconcile_loop_map refined_map_of_find last_occurrence_def
        split: option.splits)
  finally show ?thesis
    using assms(1) by (simp add: refine_frame_sequence_def)
qed

section \<open>The claims\<close>

text \<open>
  C1. The claim is that the output of \<open>refine\<close> has, at every index, the frame number of
  the input frame at that index. The code reconciles the reply against the input only
  when the number of parsed lines differs from the number of input frames; when the
  two counts agree it returns the parsed frames as they are. For the input frames
  numbered 1, 2 and a reply that lists frame 2 and then frame 1, the output is numbered
  2, 1.
\<close>

theorem refine_equal_count_returns_reply_numbering:
  "refine_frame_sequence
     [\<lparr>description = ''a'', frame_number = 1\<rparr>, \<lparr>description = ''b'', frame_number = 2\<rparr>]
     prompt (success_reply ''Frame 2: x\<newline>Frame 1: y'')
   = Inr [\<lparr>description = ''x'', frame_number = 2\<rparr>, \<lparr>description = ''y'', frame_number = 1\<rparr>]"
proof -
  have s: "strip ''Frame 2: x\<newline>Frame 1: y'' = ''Frame 2: x\<newline>Frame 1: y''"
    by (simp add: strip_def lstrip_def rstrip_def isspace_def)
  have p: "refine_from_response
             [\<lparr>description = ''a'', frame_number = 1\<rparr>, \<lparr>description = ''b'', frame_number = 2\<rparr>]
             ''Frame 2: x\<newline>Frame 1: y''
           = [\<lparr>description = ''x'', frame_number = 2\<rparr>, \<lparr>description = ''y'', frame_number = 1\<rparr>]"
    by code_simp
  show ?thesis
    by (simp add: refine_frame_sequence_def call_llm_refine_reply s p)
qed

text \<open>
  C2. The claim is that \<open>generate\<close> returns exactly \<open>num_frames\<close> frames numbered
  1 to \<open>num_frames\<close>. The first pass returns every line it accepts when there are at
  least \<open>num_frames\<close> of them: two frames for \<open>num_frames = 1\<close>. And when the first pass
  falls back to the structured pass, a blank line in the reply gives the numbers 1, 3, 3.
\<close>

theorem generate_more_than_requested:
  "generate_frame_sequence ''p'' 1 (success_reply ''Frame 1: a\<newline>Frame 2: b'') http2
   = Inr [\<lparr>description = ''a'', frame_number = 1\<rparr>, \<lparr>description = ''b'', frame_number = 2\<rparr>]
   \<and> generate_frame_sequence ''p'' 3 (success_reply ''Here are the frames'')
        (success_reply ''Frame 1: a\<newline>\<newline>Frame 2: b\<newline>\<newline>Frame 3: c'')
   = Inr [\<lparr>description = ''a'', frame_number = 1\<rparr>,
          \<lparr>description = ''b'', frame_number = 3\<rparr>,
          \<lparr>description = ''Continuation of the scene from p'', frame_number = 3\<rparr>]"
proof -
  let ?t1 = "''Frame 1: a\<newline>Frame 2: b''"
  let ?t2 = "''Here are the frames''"
  let ?t3 = "''Frame 1: a\<newline>\<newline>Frame 2: b\<newline>\<newline>Frame 3: c''"
  have s1: "strip ?t1 = ?t1" and s2: "strip ?t2 = ?t2" and s3: "strip ?t3 = ?t3"
    by (simp_all add: strip_def lstrip_def rstrip_def isspace_def)
  have p1: "first_pass ?t1
            = [\<lparr>description = ''a'', frame_number = 1\<rparr>, \<lparr>description = ''b'', frame_number = 2\<rparr>]"
    by code_simp
  have p2: "first_pass ?t2 = []"
    by code_simp
  have p3: "structured_from_response ''p'' 3 ?t3
           = [\<lparr>description = ''a'', frame_number = 1\<rparr>,
              \<lparr>description = ''b'', frame_number = 3\<rparr>,
              \<lparr>description = ''Continuation of the scene from p'', frame_number = 3\<rparr>]"
    by code_simp
  have a: "generate_frame_sequence ''p'' 1 (success_reply ?t1) http2
   = Inr [\<lparr>description = ''a'', frame_number = 1\<rparr>, \<lparr>description = ''b'', frame_number = 2\<rparr>]"
    by (simp add: generate_frame_sequence_def call_llm_generate_reply s1 p1)
  have b: "generate_frame_sequence ''p'' 3 (success_reply ?t2) (success_reply ?t3)
   = Inr [\<lparr>description = ''a'', frame_number = 1\<rparr>,
          \<lparr>description = ''b'', frame_number = 3\<rparr>,
          \<lparr>description = ''Continuation of the scene from p'', frame_number = 3\<rparr>]"
    by (simp add: generate_frame_sequence_def generate_structured_frame_sequence_def
        call_llm_generate_reply call_llm_structured_reply s2 s3 p2 p3)
  from a b show ?thesis by simp
qed

text \<open>
  C3. The claim is that the structured pass numbers the lines it takes 1, 2, ... and that
  the padding continues the numbering without a gap. The loop numbers a line by its
  position among all the lines, blank ones included, while the padding numbers from the
  count of frames taken. For a reply of three frames separated by blank lines and
  \<open>num_frames = 3\<close>, the second frame is numbered 3, the third is beyond the first three
  lines, and the placeholder is numbered 3 again: the numbers are 1, 3, 3.
\<close>

theorem structured_blank_line_numbering:
  "generate_structured_frame_sequence ''p'' 3
     (success_reply ''Frame 1: a\<newline>\<newline>Frame 2: b\<newline>\<newline>Frame 3: c'')
   = Inr [\<lparr>description = ''a'', frame_number = 1\<rparr>,
          \<lparr>description = ''b'', frame_number = 3\<rparr>,
          \<lparr>description = ''Continuation of the scene from p'', frame_number = 3\<rparr>]"
proof -
  let ?t = "''Frame 1: a\<newline>\<newline>Frame 2: b\<newline>\<newline>Frame 3: c''"
  have s: "strip ?t = ?t"
    by (simp add: strip_def lstrip_def rstrip_def isspace_def)
  have p: "structured_from_response ''p'' 3 ?t
           = [\<lparr>description = ''a'', frame_number = 1\<rparr>,
              \<lparr>description = ''b'', frame_number = 3\<rparr>,
              \<lparr>description = ''Continuation of the scene from p'', frame_number = 3\<rparr>]"
    by code_simp
  show ?thesis
    by (simp add: generate_structured_frame_sequence_def call_llm_structured_reply s p)
qed

text \<open>
  C4. The claim is that a reply line \<open>Frame 2: X\<close> is ignored when the input frames are
  numbered 1, 3, 5. When the reply has three well-formed lines, numbered 1, 2, 3, the
  counts agree, no reconciliation takes place, and the output is the reply's frames:
  frame 2 is in the output and frames 3 and 5 of the input are not.
\<close>

theorem refine_injects_frame_two:
  "refine_frame_sequence
     [\<lparr>description = ''a'', frame_number = 1\<rparr>, \<lparr>description = ''b'', frame_number = 3\<rparr>,
      \<lparr>description = ''c'', frame_number = 5\<rparr>]
     prompt (success_reply ''Frame 1: p\<newline>Frame 2: X\<newline>Frame 3: q'')
   = Inr [\<lparr>description = ''p'', frame_number = 1\<rparr>, \<lparr>description = ''X'', frame_number = 2\<rparr>,
          \<lparr>description = ''q'', frame_number = 3\<rparr>]"
proof -
  have s: "strip ''Frame 1: p\<newline>Frame 2: X\<newline>Frame 3: q''
           = ''Frame 1: p\<newline>Frame 2: X\<newline>Frame 3: q''"
    by (simp add: strip_def lstrip_def rstrip_def isspace_def)
  have p: "refine_from_response
             [\<lparr>description = ''a'', frame_number = 1\<rparr>, \<lparr>description = ''b'', frame_number = 3\<rparr>,
              \<lparr>description = ''c'', frame_number = 5\<rparr>]
             ''Frame 1: p\<newline>Frame 2: X\<newline>Frame 3: q''
           = [\<lparr>description = ''p'', frame_number = 1\<rparr>, \<lparr>description = ''X'', frame_number = 2\<rparr>,
              \<lparr>description = ''q'', frame_number = 3\<rparr>]"
    by code_simp
  show ?thesis
    by (simp add: refine_frame_sequence_def call_llm_refine_reply s p)
qed

text \<open>
  C5. The claim is that the output of \<open>refine\<close> is built from the original frames, each with
  its own frame number and with the description of the last parsed frame of that number,
  or its own description when there is none. The code does so only when the number of
  parsed frames differs from the number of input frames. For the input frames numbered
  1, 2 and a reply with two lines for frame 1, the counts agree and the parsed frames are
  returned as they are: both lines of frame 1 are in the output, the first one is not
  overwritten by the second, and frame 2 of the input is gone.
\<close>

theorem refine_equal_count_skips_reconciliation:
  "refine_frame_sequence
     [\<lparr>description = ''a'', frame_number = 1\<rparr>, \<lparr>description = ''b'', frame_number = 2\<rparr>]
     prompt (success_reply ''Frame 1: x\<newline>Frame 1: y'')
   = Inr [\<lparr>description = ''x'', frame_number = 1\<rparr>, \<lparr>description = ''y'', frame_number = 1\<rparr>]"
proof -
  have s: "strip ''Frame 1: x\<newline>Frame 1: y'' = ''Frame 1: x\<newline>Frame 1: y''"
    by (simp add: strip_def lstrip_def rstrip_def isspace_def)
  have p: "refine_from_response
             [\<lparr>description = ''a'', frame_number = 1\<rparr>, \<lparr>description = ''b'', frame_number = 2\<rparr>]
             ''Frame 1: x\<newline>Frame 1: y''
           = [\<lparr>description = ''x'', frame_number = 1\<rparr>, \<lparr>description = ''y'', frame_number = 1\<rparr>]"
    by code_simp
  show ?thesis
    by (simp add: refine_frame_sequence_def call_llm_refine_reply s p)
qed

text \<open>
  C6. A line of the reply contributes a parsed frame exactly when, with its surrounding
  whitespace removed, it starts with the word \<open>Frame\<close>, contains a colon, and the part
  before the first colon reads as an integer once the word \<open>Frame\<close> is taken out of
  it. The parsed frames are the frames of the lines that qualify, in the reply's order;
  the other lines contribute nothing, and parsing has no error result.
\<close>

theorem refine_line_qualifies:
  "((\<exists>f. parse_refined_line raw = Some f) \<longleftrightarrow> qualifies (strip raw))
   \<and> parsed_frames response
       = List.map_filter parse_refined_line (split CHR ''\<newline>'' (strip response))"
  by (simp add: parse_refined_line_Some_iff parsed_frames_def refined_loop_map_filter)

theorem refine_line_qualifies_witness:
  "(\<exists>f. parse_refined_line ''  Frame 7 : x  '' = Some f)
   \<and> \<not> (\<exists>f. parse_refined_line ''Frame seven: x'' = Some f)
   \<and> \<not> (\<exists>f. parse_refined_line ''Frame 7'' = Some f)
   \<and> \<not> (\<exists>f. parse_refined_line ''7: Frame'' = Some f)"
proof -
  have a: "qualifies (strip ''  Frame 7 : x  '')" by code_simp
  have b: "\<not> qualifies (strip ''Frame seven: x'')" by code_simp
  have c: "\<not> qualifies (strip ''Frame 7'')" by code_simp
  have d: "\<not> qualifies (strip ''7: Frame'')" by code_simp
  show ?thesis
    using a b c d
      refine_line_qualifies [of "''  Frame 7 : x  ''" "[]"]
      refine_line_qualifies [of "''Frame seven: x''" "[]"]
      refine_line_qualifies [of "''Frame 7''" "[]"]
      refine_line_qualifies [of "''7: Frame''" "[]"]
    by blast
qed

text \<open>
  C7. The claim is that the completion call raises exactly when the service answers with
  a non-success status. A reply with status 200 whose JSON body is the list \<open>[5]\<close> makes
  the call raise as well: the first element of the list has no \<open>get\<close>.
\<close>

theorem call_llm_raises_on_success_status:
  "status_code \<lparr>status_code = 200, body_text = ''[5]'', json = Some (JArray [JNumber 5])\<rparr> = 200
   \<and> call_llm [\<lparr>role = ''user'', content = ''hi''\<rparr>]
        \<lparr>status_code = 200, body_text = ''[5]'', json = Some (JArray [JNumber 5])\<rparr>
      = Inl AttributeError"
  by (simp add: call_llm_def generated_text_def)

text \<open>
  C7, as amended. The completion call raises \<open>ValueError\<close> with the reply's payload text
  whenever the status is not 200. With status 200 it returns the generated text, without
  the prompt and stripped, whenever the body is an object, or a list that starts with an
  object, with a string under \<open>generated_text\<close>. It raises exactly when the status is not
  200 or the body cannot be read: the body is not JSON, or the object (the first element
  of the list) is not an object with an absent or string \<open>generated_text\<close>.
  \<open>refine_frame_sequence\<close> fails exactly when its completion call fails, with the same
  error; whatever text the call returns, it returns a list of frames.
\<close>

theorem completion_failures:
  "(status_code http \<noteq> 200 \<longrightarrow>
      call_llm messages http
        = Inl (ValueError (''Error from Hugging Face API: '' @ body_text http)))
   \<and> (status_code http = 200
        \<and> (json http = Some (JObject kvs) \<or> json http = Some (JArray (JObject kvs # rest)))
        \<and> map_of kvs ''generated_text'' = Some (JString t)
        \<longrightarrow> call_llm messages http = Inr (strip (replace t (format_messages messages) [])))
   \<and> ((\<exists>e. call_llm messages http = Inl e)
        \<longleftrightarrow> status_code http \<noteq> 200 \<or> \<not> readable_body (json http))
   \<and> (refine_frame_sequence frames prompt http = Inl e
        \<longleftrightarrow> call_llm (refine_messages frames prompt) http = Inl e)
   \<and> (call_llm (refine_messages frames prompt) http = Inr response \<longrightarrow>
        refine_frame_sequence frames prompt http = Inr (refine_from_response frames response))"
proof (intro conjI impI)
  show "(\<exists>e. call_llm messages http = Inl e)
        \<longleftrightarrow> status_code http \<noteq> 200 \<or> \<not> readable_body (json http)"
    by (rule call_llm_raises_iff)
  show "refine_frame_sequence frames prompt http = Inl e
        \<longleftrightarrow> call_llm (refine_messages frames prompt) http = Inl e"
    by (auto simp: refine_frame_sequence_def split: sum.splits)
next
  assume "status_code http \<noteq> 200"
  then show "call_llm messages http
        = Inl (ValueError (''Error from Hugging Face API: '' @ body_text http))"
    by (simp add: call_llm_def)
next
  assume "status_code http = 200
        \<and> (json http = Some (JObject kvs) \<or> json http = Some (JArray (JObject kvs # rest)))
        \<and> map_of kvs ''generated_text'' = Some (JString t)"
  then show "call_llm messages http = Inr (strip (replace t (format_messages messages) []))"
    using call_llm_returns_text [of http kvs rest t messages] by blast
next
  assume "call_llm (refine_messages frames prompt) http = Inr response"
  then show "refine_frame_sequence frames prompt http = Inr (refine_from_response frames response)"
    by (simp add: refine_frame_sequence_def)
qed

theorem completion_failures_witness:
  "call_llm [\<lparr>role = ''user'', content = ''hi''\<rparr>]
     \<lparr>status_code = 503, body_text = ''overloaded'', json = None\<rparr>
     = Inl (ValueError ''Error from Hugging Face API: overloaded'')
   \<and> call_llm [\<lparr>role = ''user'', content = ''hi''\<rparr>]
       \<lparr>status_code = 200, body_text = [],
        json = Some (JArray [JObject [(''score'', JNumber 1),
                                      (''generated_text'', JString '' Frame 1: x '')]])\<rparr>
     = Inr ''Frame 1: x''
   \<and> (\<exists>e. call_llm [\<lparr>role = ''user'', content = ''hi''\<rparr>]
             \<lparr>status_code = 200, body_text = ''oops'', json = None\<rparr> = Inl e)
   \<and> refine_frame_sequence [\<lparr>description = ''a'', frame_number = 1\<rparr>] ''p''
        (success_reply ''no frames here'')
     = Inr [\<lparr>description = ''a'', frame_number = 1\<rparr>]"
proof -
  let ?m = "[\<lparr>role = ''user'', content = ''hi''\<rparr>]"
  let ?down = "\<lparr>status_code = 503, body_text = ''overloaded'', json = None\<rparr>"
  let ?kvs = "[(''score'', JNumber 1), (''generated_text'', JString '' Frame 1: x '')]"
  let ?ok = "\<lparr>status_code = 200, body_text = [], json = Some (JArray [JObject ?kvs])\<rparr>"
  let ?bad = "\<lparr>status_code = 200, body_text = ''oops'', json = None\<rparr>"
  let ?fs = "[\<lparr>description = ''a'', frame_number = 1\<rparr>]"
  have a: "call_llm ?m ?down = Inl (ValueError ''Error from Hugging Face API: overloaded'')"
    using completion_failures [where http = ?down and messages = ?m] by simp
  have shape: "status_code ?ok = 200
        \<and> (json ?ok = Some (JObject ?kvs) \<or> json ?ok = Some (JArray (JObject ?kvs # [])))
        \<and> map_of ?kvs ''generated_text'' = Some (JString '' Frame 1: x '')"
    by simp
  have t: "strip (replace '' Frame 1: x '' (format_messages ?m) []) = ''Frame 1: x''"
    by code_simp
  have "call_llm ?m ?ok = Inr (strip (replace '' Frame 1: x '' (format_messages ?m) []))"
    using completion_failures [where http = ?ok and messages = ?m and kvs = ?kvs and rest = "[]"
        and t = "'' Frame 1: x ''"] shape by blast
  then have b: "call_llm ?m ?ok = Inr ''Frame 1: x''"
    by (simp only: t)
  have nr: "\<not> readable_body (json ?bad)"
    by (simp add: readable_body_def)
  have c: "\<exists>e. call_llm ?m ?bad = Inl e"
    using completion_failures [where http = ?bad and messages = ?m] nr by blast
  have call: "call_llm (refine_messages ?fs ''p'') (success_reply ''no frames here'')
                = Inr ''no frames here''"
    by (simp add: call_llm_refine_reply strip_def lstrip_def rstrip_def isspace_def)
  have r: "refine_from_response ?fs ''no frames here'' = ?fs"
    by code_simp
  have "refine_frame_sequence ?fs ''p'' (success_reply ''no frames here'')
          = Inr (refine_from_response ?fs ''no frames here'')"
    using completion_failures [where http = "success_reply ''no frames here''" and frames = ?fs
        and prompt = "''p''" and response = "''no frames here''"] call by blast
  then have d: "refine_frame_sequence ?fs ''p'' (success_reply ''no frames here'') = Inr ?fs"
    by (simp only: r)
  from a b c d show ?thesis by blast
qed

text \<open>
  C8. \<open>generate_image\<close> returns \<open>None\<close> when the service key is absent, when the reply
  has a non-success status, and when the reply has no image artifact (no \<open>artifacts\<close>
  entry, or an empty one); it has no error result. In the batch, a frame whose image
  generation returns \<open>None\<close> leaves no trace: the result is that of the batch without
  this frame. As long as writing the files succeeds, the batch returns the paths of the
  frames whose image was generated, in order.
\<close>

theorem image_failures_isolated:
  "(\<not> key_set api_key \<longrightarrow> generate_image api_key decode out = None)
   \<and> (status_code response \<noteq> 200 \<longrightarrow> generate_image api_key decode (Inr response) = None)
   \<and> (json response = Some (JObject kvs)
        \<and> (map_of kvs ''artifacts'' = None \<or> map_of kvs ''artifacts'' = Some (JArray []))
        \<longrightarrow> generate_image api_key decode (Inr response) = None)
   \<and> (generate_image api_key decode (outcome (env (length before))) = None \<longrightarrow>
        generate_frame_images api_key decode output_dir env (before @ f # after)
          = generate_frame_images api_key decode output_dir (skip_env (length before) env) (before @ after))
   \<and> ((\<forall>j < length frames. write_error (env j) = None) \<longrightarrow>
        generate_frame_images api_key decode output_dir env frames
          = Inr (List.map_filter (\<lambda>(j, frame). frame_path api_key decode output_dir (env j) frame)
                   (enumerate 0 frames)))"
proof (intro conjI impI)
  assume "\<forall>j < length frames. write_error (env j) = None"
  then show "generate_frame_images api_key decode output_dir env frames
          = Inr (List.map_filter (\<lambda>(j, frame). frame_path api_key decode output_dir (env j) frame)
                   (enumerate 0 frames))"
    by (simp add: generate_frame_images_def frame_images_loop_paths)
qed (simp_all add: generate_image_no_key generate_image_bad_status generate_image_no_artifact
      generate_frame_images_skip)

theorem image_failures_isolated_witness:
  "generate_image None demo_decode (outcome (demo_env 0)) = None
   \<and> generate_image (Some ''key'') demo_decode (outcome (demo_env 1)) = None
   \<and> generate_image (Some ''key'') demo_decode
         (Inr \<lparr>status_code = 200, body_text = [],
               json = Some (JObject [(''artifacts'', JArray [])])\<rparr>) = None
   \<and> generate_frame_images (Some ''key'') demo_decode ''/out'' demo_env
         [\<lparr>description = ''a cat'', frame_number = 1\<rparr>,
          \<lparr>description = ''it sleeps'', frame_number = 2\<rparr>,
          \<lparr>description = ''b: c'', frame_number = 3\<rparr>]
       = generate_frame_images (Some ''key'') demo_decode ''/out'' (skip_env 1 demo_env)
           [\<lparr>description = ''a cat'', frame_number = 1\<rparr>,
            \<lparr>description = ''b: c'', frame_number = 3\<rparr>]
   \<and> generate_frame_images (Some ''key'') demo_decode ''/out'' demo_env
         [\<lparr>description = ''a cat'', frame_number = 1\<rparr>,
          \<lparr>description = ''it sleeps'', frame_number = 2\<rparr>,
          \<lparr>description = ''b: c'', frame_number = 3\<rparr>]
       = Inr [''/out/20240102_030405_frame_01_a_cat.png'',
              ''/out/20240102_030405_frame_03_b__c.png'']"
proof -
  let ?f1 = "\<lparr>description = ''a cat'', frame_number = 1\<rparr>"
  let ?f2 = "\<lparr>description = ''it sleeps'', frame_number = 2\<rparr>"
  let ?f3 = "\<lparr>description = ''b: c'', frame_number = 3\<rparr>"
  let ?empty = "\<lparr>status_code = 200, body_text = [],
                 json = Some (JObject [(''artifacts'', JArray [])])\<rparr>"
  let ?denied = "\<lparr>status_code = 401, body_text = ''denied'', json = None\<rparr>"
  note T = image_failures_isolated [where decode = demo_decode and output_dir = "''/out''"
      and env = demo_env and before = "[?f1]" and f = ?f2 and after = "[?f3]"
      and frames = "[?f1, ?f2, ?f3]"]
  have o1: "outcome (demo_env 1) = Inr ?denied"
    by (simp add: demo_env_def)
  have k: "\<not> key_set None"
    by (simp add: key_set_def)
  have a: "generate_image None demo_decode (outcome (demo_env 0)) = None"
    using T [where api_key = None and out = "outcome (demo_env 0)"] k by blast
  have st: "status_code ?denied \<noteq> 200"
    by simp
  have "generate_image (Some ''key'') demo_decode (Inr ?denied) = None"
    using T [where api_key = "Some ''key''" and response = ?denied] st by blast
  then have b: "generate_image (Some ''key'') demo_decode (outcome (demo_env 1)) = None"
    by (simp only: o1)
  have js: "json ?empty = Some (JObject [(''artifacts'', JArray [])])
            \<and> (map_of [(''artifacts'', JArray [])] ''artifacts'' = None
                 \<or> map_of [(''artifacts'', JArray [])] ''artifacts'' = Some (JArray []))"
    by simp
  have c: "generate_image (Some ''key'') demo_decode (Inr ?empty) = None"
    using T [where api_key = "Some ''key''" and response = ?empty
        and kvs = "[(''artifacts'', JArray [])]"] js by blast
  have b': "generate_image (Some ''key'') demo_decode (outcome (demo_env (length [?f1]))) = None"
    using b by simp
  have "generate_frame_images (Some ''key'') demo_decode ''/out'' demo_env ([?f1] @ ?f2 # [?f3])
       = generate_frame_images (Some ''key'') demo_decode ''/out''
           (skip_env (length [?f1]) demo_env) ([?f1] @ [?f3])"
    using T [where api_key = "Some ''key''"] b' by blast
  then have d: "generate_frame_images (Some ''key'') demo_decode ''/out'' demo_env [?f1, ?f2, ?f3]
       = generate_frame_images (Some ''key'') demo_decode ''/out'' (skip_env 1 demo_env) [?f1, ?f3]"
    by simp
  have w: "\<forall>j < length [?f1, ?f2, ?f3]. write_error (demo_env j) = None"
    by (simp add: demo_env_def)
  have p: "List.map_filter
             (\<lambda>(j, frame). frame_path (Some ''key'') demo_decode ''/out'' (demo_env j) frame)
             (enumerate 0 [?f1, ?f2, ?f3])
           = [''/out/20240102_030405_frame_01_a_cat.png'',
              ''/out/20240102_030405_frame_03_b__c.png'']"
    by code_simp
  have "generate_frame_images (Some ''key'') demo_decode ''/out'' demo_env [?f1, ?f2, ?f3]
       = Inr (List.map_filter
             (\<lambda>(j, frame). frame_path (Some ''key'') demo_decode ''/out'' (demo_env j) frame)
             (enumerate 0 [?f1, ?f2, ?f3]))"
    using T [where api_key = "Some ''key''"] w by blast
  then have e: "generate_frame_images (Some ''key'') demo_decode ''/out'' demo_env [?f1, ?f2, ?f3]
       = Inr [''/out/20240102_030405_frame_01_a_cat.png'',
              ''/out/20240102_030405_frame_03_b__c.png'']"
    by (simp only: p)
  from a b c d e show ?thesis by blast
qed

text \<open>
  C9. For a well-formatted sequence (every description a single line without surrounding
  whitespace), when the completion call returns the rendered \<open>Frame k: description\<close>
  lines, up to whitespace around the whole text, \<open>refine_frame_sequence\<close> returns the
  input frames: the same descriptions, and the same frame numbers.
\<close>

theorem refine_echo_identity:
  assumes "well_formatted frames"
    and "call_llm (refine_messages frames prompt) http = Inr response"
    and "strip response = strip (frames_text frames)"
  shows "refine_frame_sequence frames prompt http = Inr frames"
proof -
  have "parsed_frames response = parsed_frames (frames_text frames)"
    by (simp add: parsed_frames_def assms(3))
  then have "parsed_frames response = frames"
    using assms(1) by (simp add: parsed_frames_echo)
  then have "refine_from_response frames response = frames"
    by (simp add: refine_from_response_def parsed_frames_def Let_def)
  then show ?thesis
    using assms(2) by (simp add: refine_frame_sequence_def)
qed

theorem refine_echo_identity_witness:
  "refine_frame_sequence
     [\<lparr>description = ''a cat: asleep'', frame_number = 1\<rparr>,
      \<lparr>description = '''', frame_number = 12\<rparr>]
     ''p'' (success_reply ''Frame 1: a cat: asleep\<newline>Frame 12: '')
   = Inr [\<lparr>description = ''a cat: asleep'', frame_number = 1\<rparr>,
          \<lparr>description = '''', frame_number = 12\<rparr>]"
proof -
  let ?frames = "[\<lparr>description = ''a cat: asleep'', frame_number = 1\<rparr>,
                  \<lparr>description = '''', frame_number = 12\<rparr>]"
  let ?t = "''Frame 1: a cat: asleep\<newline>Frame 12: ''"
  have w: "well_formatted ?frames"
    by (simp add: well_formatted_def strip_def lstrip_def rstrip_def isspace_def)
  have t: "frames_text ?frames = ?t"
    by code_simp
  have c: "call_llm (refine_messages ?frames ''p'') (success_reply ?t) = Inr (strip ?t)"
    by (simp add: call_llm_refine_reply)
  have s: "strip (strip ?t) = strip (frames_text ?frames)"
    by (simp add: t)
  show ?thesis
    using refine_echo_identity [OF w c s] .
qed

text \<open>
  C10. \<open>refine_frame_sequence\<close> does not change its input. Every object that exists when
  it is called is the same object when it returns: the store after the call is the store
  before it followed by new objects. So the input list holds the same addresses and the
  frames in it are unchanged. The frames of the list returned are those that the model
  over values computes, and each item of the list returned is either a new object or one
  of the original frames, passed through.
\<close>

theorem refine_keeps_input:
  assumes "valid_input h frames"
    and "refine_frame_sequence_heap frames prompt http h = (r, h')"
  shows "take (length h) h' = h
         \<and> list_at h' frames = list_at h frames
         \<and> frames_at h' frames = frames_at h frames
         \<and> (case r of
               Inl e \<Rightarrow> h' = h \<and> refine_frame_sequence (frames_at h frames) prompt http = Inl e
             | Inr result \<Rightarrow>
                 refine_frame_sequence (frames_at h frames) prompt http
                   = Inr (frames_at h' result)
                 \<and> list_all (\<lambda>a. a \<in> set (list_at h frames) \<or> length h \<le> a)
                      (list_at h' result))"
proof -
  let ?messages = "refine_messages (frames_at h frames) prompt"
  have in_range: "frames < length h" and addrs: "\<forall>a\<in>set (list_at h frames). a < length h"
    using assms(1) by (auto simp: valid_input_def list_all_iff)
  have kept: "take (length h) h' = h \<and> length h \<le> length h'
              \<and> (case r of
               Inl e \<Rightarrow> h' = h \<and> refine_frame_sequence (frames_at h frames) prompt http = Inl e
             | Inr result \<Rightarrow>
                 refine_frame_sequence (frames_at h frames) prompt http
                   = Inr (frames_at h' result)
                 \<and> list_all (\<lambda>a. a \<in> set (list_at h frames) \<or> length h \<le> a)
                      (list_at h' result))"
  proof (cases "call_llm ?messages http")
    case (Inl e)
    then have "r = Inl e" "h' = h"
      using assms(2) by (auto simp: refine_frame_sequence_heap_def frames_at_def)
    then show ?thesis
      using Inl by (simp add: refine_frame_sequence_def)
  next
    case (Inr response)
    obtain result h'' where run: "refine_from_response_heap frames response h = (result, h'')"
      by (cases "refine_from_response_heap frames response h")
    then have r: "r = Inr result" "h' = h''"
      using assms(2) Inr by (auto simp: refine_frame_sequence_heap_def frames_at_def)
    note frame = refine_from_response_heap_frame [OF run]
    note refines = refine_from_response_heap_refines [OF assms(1) run]
    show ?thesis
      using frame refines Inr by (simp add: r refine_frame_sequence_def)
  qed
  then have t: "take (length h) h' = h" and l: "length h \<le> length h'"
    by simp_all
  have nth: "h' ! a = h ! a" if "a < length h" for a
    using that t by (metis nth_take)
  have list: "list_at h' frames = list_at h frames"
    using in_range by (simp add: list_at_def nth)
  have "frame_at h' a = frame_at h a" if "a \<in> set (list_at h frames)" for a
    using that addrs by (simp add: frame_at_def nth)
  then have "frames_at h' frames = frames_at h frames"
    by (simp add: frames_at_def list)
  with kept list show ?thesis by simp
qed

theorem refine_keeps_input_witness:
  "valid_input
     [Frame \<lparr>description = ''a'', frame_number = 1\<rparr>,
      Frame \<lparr>description = ''b'', frame_number = 3\<rparr>, PyList [0, 1]] 2
   \<and> refine_frame_sequence_heap 2 ''p'' (success_reply ''Frame 3: X'')
       [Frame \<lparr>description = ''a'', frame_number = 1\<rparr>,
        Frame \<lparr>description = ''b'', frame_number = 3\<rparr>, PyList [0, 1]]
     = (Inr 5,
        [Frame \<lparr>description = ''a'', frame_number = 1\<rparr>,
         Frame \<lparr>description = ''b'', frame_number = 3\<rparr>, PyList [0, 1],
         PyList [4], Frame \<lparr>description = ''X'', frame_number = 3\<rparr>,
         PyList [0, 6], Frame \<lparr>description = ''X'', frame_number = 3\<rparr>])
   \<and> refine_frame_sequence
       [\<lparr>description = ''a'', frame_number = 1\<rparr>, \<lparr>description = ''b'', frame_number = 3\<rparr>]
       ''p'' (success_reply ''Frame 3: X'')
     = Inr [\<lparr>description = ''a'', frame_number = 1\<rparr>, \<lparr>description = ''X'', frame_number = 3\<rparr>]"
proof -
  let ?h = "[Frame \<lparr>description = ''a'', frame_number = 1\<rparr>,
             Frame \<lparr>description = ''b'', frame_number = 3\<rparr>, PyList [0, 1]]"
  let ?h' = "[Frame \<lparr>description = ''a'', frame_number = 1\<rparr>,
         Frame \<lparr>description = ''b'', frame_number = 3\<rparr>, PyList [0, 1],
         PyList [4], Frame \<lparr>description = ''X'', frame_number = 3\<rparr>,
         PyList [0, 6], Frame \<lparr>description = ''X'', frame_number = 3\<rparr>]"
  have v: "valid_input ?h 2"
    by (simp add: valid_input_def list_at_def)
  have s: "strip ''Frame 3: X'' = ''Frame 3: X''"
    by (simp add: strip_def lstrip_def rstrip_def isspace_def)
  have c: "call_llm (refine_messages (map (frame_at ?h) (list_at ?h 2)) ''p'')
             (success_reply ''Frame 3: X'') = Inr ''Frame 3: X''"
    by (simp add: call_llm_refine_reply s)
  have p: "refine_from_response_heap 2 ''Frame 3: X'' ?h = (5, ?h')"
    by code_simp
  have run: "refine_frame_sequence_heap 2 ''p'' (success_reply ''Frame 3: X'') ?h = (Inr 5, ?h')"
    unfolding refine_frame_sequence_heap_def Let_def c sum.case p by simp
  have f: "frames_at ?h 2
             = [\<lparr>description = ''a'', frame_number = 1\<rparr>, \<lparr>description = ''b'', frame_number = 3\<rparr>]"
    and f': "frames_at ?h' 5
             = [\<lparr>description = ''a'', frame_number = 1\<rparr>, \<lparr>description = ''X'', frame_number = 3\<rparr>]"
    by (simp_all add: frames_at_def list_at_def frame_at_def)
  have "refine_frame_sequence (frames_at ?h 2) ''p'' (success_reply ''Frame 3: X'')
          = Inr (frames_at ?h' 5)"
    using refine_keeps_input [OF v run] by simp
  then show ?thesis
    using v run by (simp only: f f' simp_thms)
qed

end
